theory Spec2Isabelle
  imports Main "HOL-Library.Word"
begin

unbundle bit_operations_syntax

section \<open>Streams and local buffers\<close>

text \<open>
  The program works on C streams (\<^verbatim>\<open>FILE*\<close>) over regular files. A stream is its
  byte contents, its cursor and its descriptor number. The cursor may stand behind
  the last byte (seeking there succeeds on a regular file; reading there yields
  nothing). The end-of-file indicator is not modelled: a read at or behind the end
  yields no bytes whether or not the indicator is set, and nothing else reads it.

  The platform is LP64: \<^verbatim>\<open>long\<close> and \<^verbatim>\<open>size_t\<close> have 64 bits and \<^verbatim>\<open>int\<close> has 32.
  \<^verbatim>\<open>long\<close> is modelled as \<open>int\<close> and \<^verbatim>\<open>size_t\<close> as \<open>nat\<close>: no file is long enough
  for a 64-bit offset to overflow. \<^verbatim>\<open>uint8_t\<close> is \<open>8 word\<close>, \<^verbatim>\<open>uint32_t\<close> is
  \<open>32 word\<close>. The one \<^verbatim>\<open>int\<close> the program computes with, the chunk counter of
  \<^verbatim>\<open>barmaid_find_seq\<close>, is a \<open>32 word\<close> read as a signed number, so that its
  increment and its product with \<^verbatim>\<open>BUFF_SIZ\<close> wrap around as two's complement
  arithmetic does.
\<close>

type_synonym byte = "8 word"

record FILE =
  bytes :: "byte list"
  pos :: nat
  fileno :: int

text \<open>
  A local array is a map from index to byte. C leaves a local array uninitialised, so
  the contents a function finds in it are a parameter of the model; the map is total
  because \<^verbatim>\<open>memcmp\<close> is allowed to look behind the array's last element, where it
  finds whatever the memory holds.
\<close>

type_synonym mem = "nat \<Rightarrow> byte"

definition BUFF_SIZ :: nat where
  "BUFF_SIZ = 8192"

definition LONGEST_MAGIC_STRING :: nat where
  "LONGEST_MAGIC_STRING = 32"

definition fopen_rb :: "byte list \<Rightarrow> int \<Rightarrow> FILE" where
  \<comment> \<open>\<^verbatim>\<open>fopen(name, "rb")\<close>: the cursor is at the first byte\<close>
  "fopen_rb bs fd = \<lparr>bytes = bs, pos = 0, fileno = fd\<rparr>"

definition fopen_wb :: "int \<Rightarrow> FILE" where
  \<comment> \<open>\<^verbatim>\<open>fopen(name, "wb")\<close>: an empty file\<close>
  "fopen_wb fd = \<lparr>bytes = [], pos = 0, fileno = fd\<rparr>"

definition fread :: "nat \<Rightarrow> FILE \<Rightarrow> byte list \<times> FILE" where
  \<comment> \<open>\<^verbatim>\<open>fread(buf, 1, n, fil)\<close>: the bytes delivered (their number is the return value)\<close>
  "fread n fil =
     (let data = take n (drop (pos fil) (bytes fil))
      in (data, fil\<lparr>pos := pos fil + length data\<rparr>))"

definition fseek :: "FILE \<Rightarrow> int \<Rightarrow> int \<times> FILE" where
  \<comment> \<open>\<^verbatim>\<open>fseek(fil, offset, SEEK_SET)\<close>: fails on a negative offset, cursor unchanged\<close>
  "fseek fil offset = (if offset < 0 then (- 1, fil) else (0, fil\<lparr>pos := nat offset\<rparr>))"

definition ftell :: "FILE \<Rightarrow> int" where
  "ftell fil = int (pos fil)"

definition fwrite :: "byte list \<Rightarrow> FILE \<Rightarrow> nat \<times> FILE" where
  \<comment> \<open>\<^verbatim>\<open>fwrite(buf, 1, n, fil)\<close> on a sink that accepts every byte; a gap is zero-filled\<close>
  "fwrite data fil =
     (length data,
      fil\<lparr>bytes := take (pos fil) (bytes fil) @ replicate (pos fil - length (bytes fil)) 0
                    @ data @ drop (pos fil + length data) (bytes fil),
          pos := pos fil + length data\<rparr>)"

definition store :: "mem \<Rightarrow> nat \<Rightarrow> byte list \<Rightarrow> mem" where
  \<comment> \<open>the bytes delivered by a read land at \<open>buf[k]\<close>, \<open>buf[k+1]\<close>, ...; the rest stays\<close>
  "store buf k data = (\<lambda>j. if k \<le> j \<and> j < k + length data then data ! (j - k) else buf j)"

definition memmove :: "mem \<Rightarrow> nat \<Rightarrow> nat \<Rightarrow> nat \<Rightarrow> mem" where
  \<comment> \<open>\<^verbatim>\<open>memmove(&buf[dst], &buf[src], n)\<close>\<close>
  "memmove buf dst src n = (\<lambda>j. if dst \<le> j \<and> j < dst + n then buf (src + (j - dst)) else buf j)"

definition memcmp_eq :: "mem \<Rightarrow> nat \<Rightarrow> byte list \<Rightarrow> bool" where
  \<comment> \<open>\<^verbatim>\<open>!memcmp(&buf[k], seq, seq_len)\<close>\<close>
  "memcmp_eq buf k seq = (map buf [k ..< k + length seq] = seq)"

section \<open>The magic sequences and the result structure\<close>

definition barmaid_start_mseq_png :: "byte list" where
  "barmaid_start_mseq_png =
     [0x89, 0x50, 0x4E, 0x47, 0x0D, 0x0A, 0x1A, 0x0A,
      0x00, 0x00, 0x00, 0x0D, 0x49, 0x48, 0x44, 0x52]"

definition barmaid_end_mseq_png :: "byte list" where
  "barmaid_end_mseq_png =
     [0x00, 0x00, 0x00, 0x00, 0x49, 0x45, 0x4E, 0x44, 0xAE, 0x42, 0x60, 0x82]"

definition barmaid_btw_mseq_sof :: "byte list" where
  "barmaid_btw_mseq_sof =
     [0x0D, 0x0A, 0x42, 0x61, 0x72, 0x20, 0x54, 0x65, 0x6E, 0x64, 0x65, 0x72, 0x20,
      0x46, 0x6F, 0x72, 0x6D, 0x61, 0x74, 0x20, 0x46, 0x69, 0x6C, 0x65, 0x0D, 0x0A]"

definition barmaid_btw_end_of_meta :: "byte list" where
  "barmaid_btw_end_of_meta = [0xFF, 0xFE, 0xFF, 0x00]"

definition barmaid_btw_zlib :: "byte list" where
  "barmaid_btw_zlib = [0x00, 0x01]"

record blobs =
  success :: bool
  prefix_end :: int
  png_start :: "int list"
  png_end :: "int list"
  container_zlib :: bool
  container_start :: int
  container_end :: int

definition blobs_init :: blobs where
  \<comment> \<open>\<^verbatim>\<open>{b.success = false, -1, {-1, -1}, {-1, -1}, false, -1, -1}\<close>\<close>
  "blobs_init = \<lparr>success = False, prefix_end = - 1, png_start = [- 1, - 1],
     png_end = [- 1, - 1], container_zlib = False, container_start = - 1,
     container_end = - 1\<rparr>"

section \<open>The sequence scanner\<close>

text \<open>
  The inner \<^verbatim>\<open>for(; i < read; i++)\<close> of \<^verbatim>\<open>barmaid_find_seq\<close>: the first \<open>i\<close> at which
  the buffer matches, if any.
\<close>

function find_seq_scan :: "mem \<Rightarrow> byte list \<Rightarrow> int \<Rightarrow> int \<Rightarrow> int option" where
  "find_seq_scan search_buff seq i read =
     (if i < read
      then (if memcmp_eq search_buff (nat (int LONGEST_MAGIC_STRING + i)) seq
            then Some i
            else find_seq_scan search_buff seq (i + 1) read)
      else None)"
  by pat_completeness auto
termination
  by (relation "measure (\<lambda>(search_buff, seq, i, read). nat (read - i))") auto

text \<open>
  The \<^verbatim>\<open>while((read = fread(...)))\<close> loop. The chunk is read into the buffer first;
  only then are the 32 bytes at \<open>search_buff[BUFF_SIZ]\<close> moved to the front.
  \<^verbatim>\<open>chunk_count\<close> is an \<^verbatim>\<open>int\<close> and \<^verbatim>\<open>BUFF_SIZ\<close> an \<^verbatim>\<open>int\<close> constant: the product
  \<^verbatim>\<open>chunk_count * BUFF_SIZ\<close> is formed in 32 bits and only then widened, with its sign,
  to the \<^verbatim>\<open>long\<close> it is added to.
\<close>

function find_seq_loop :: "mem \<Rightarrow> 32 word \<Rightarrow> FILE \<Rightarrow> int \<Rightarrow> byte list \<Rightarrow> int \<times> FILE" where
  "find_seq_loop search_buff chunk_count fil offset seq =
     (case fread BUFF_SIZ fil of (data, fil1) \<Rightarrow>
        if length data = 0 then (- 1, fil1)
        else
          let buf1 = store search_buff LONGEST_MAGIC_STRING data;
              buf2 = (if chunk_count \<noteq> 0
                      then memmove buf1 0 BUFF_SIZ LONGEST_MAGIC_STRING else buf1);
              i0 = (if chunk_count \<noteq> 0 then - int LONGEST_MAGIC_STRING else 0)
          in (case find_seq_scan buf2 seq i0 (int (length data)) of
                Some i \<Rightarrow>
                  let p = offset + i + sint (chunk_count * of_nat BUFF_SIZ)
                  in (p, snd (fseek fil1 p))
              | None \<Rightarrow> find_seq_loop buf2 (chunk_count + 1) fil1 offset seq))"
  by pat_completeness auto
termination
  by (relation "measure (\<lambda>(search_buff, chunk_count, fil, offset, seq).
                   length (bytes fil) - pos fil)")
     (auto simp: fread_def Let_def)

text \<open>
  \<^verbatim>\<open>barmaid_find_seq\<close>. The stream handed in is an open one, so the \<^verbatim>\<open>!fil\<close>
  exit is not part of the model. \<open>seq_len\<close> is \<open>length seq\<close> at every call.
\<close>

definition barmaid_find_seq :: "mem \<Rightarrow> FILE \<Rightarrow> int \<Rightarrow> byte list \<Rightarrow> int \<times> FILE" where
  "barmaid_find_seq search_buff fil offset seq =
     (if offset \<ge> 0
      then (case fseek fil offset of (r, fil1) \<Rightarrow>
              if r \<noteq> 0 then (- 3, fil1)
              else find_seq_loop search_buff 0 fil1 offset seq)
      else find_seq_loop search_buff 0 fil offset seq)"

section \<open>The padding skipper\<close>

function skip_padding_loop :: "mem \<Rightarrow> FILE \<Rightarrow> int \<times> FILE" where
  "skip_padding_loop buff fil =
     (let cur_pos = ftell fil
      in (case fread 4 fil of (data, fil1) \<Rightarrow>
            if length data = 0 then (- 1, snd (fseek fil1 cur_pos))
            else
              let buff1 = store buff 0 data
              in if buff1 0 \<noteq> 0 \<or> buff1 1 \<noteq> 0 \<or> buff1 2 \<noteq> 0 \<or> buff1 3 \<noteq> 0
                 then (cur_pos, snd (fseek fil1 cur_pos))
                 else skip_padding_loop buff1 fil1))"
  by pat_completeness auto
termination
  by (relation "measure (\<lambda>(buff, fil). length (bytes fil) - pos fil)")
     (auto simp: fread_def Let_def)

definition barmaid_skip_padding :: "mem \<Rightarrow> FILE \<Rightarrow> int \<Rightarrow> int \<times> FILE" where
  "barmaid_skip_padding buff fil offset =
     (if offset \<ge> 0
      then (case fseek fil offset of (r, fil1) \<Rightarrow>
              if r \<noteq> 0 then (- 2, fil1) else skip_padding_loop buff fil1)
      else skip_padding_loop buff fil)"

section \<open>The signature check\<close>

definition barmaid_is_btw :: "mem \<Rightarrow> FILE \<Rightarrow> bool \<times> FILE" where
  "barmaid_is_btw buff fil =
     (case fread (length barmaid_btw_mseq_sof) fil of (data, fil1) \<Rightarrow>
        (length data \<noteq> 0 \<and> memcmp_eq (store buff 0 data) 0 barmaid_btw_mseq_sof, fil1))"

section \<open>The layout parser\<close>

text \<open>
  The inner \<^verbatim>\<open>for(int j = 3; j >= 0; j--)\<close>: shift the accumulator and or the next
  byte in, most significant byte first. \<open>blobsize\<close> is not reset between the two
  images.
\<close>

definition blobsize_loop :: "mem \<Rightarrow> 32 word \<Rightarrow> 32 word" where
  "blobsize_loop buff blobsize =
     foldl (\<lambda>bs j. push_bit 8 bs OR ucast (buff j)) blobsize [3, 2, 1, 0]"

text \<open>
  The \<^verbatim>\<open>for(int i = 0; i < 2; i++)\<close> over the two images. \<open>Inl\<close> is the
  \<^verbatim>\<open>return b\<close> inside the loop, \<open>Inr\<close> the state with which the loop is left.
  The results of \<^verbatim>\<open>fseek\<close> and of \<^verbatim>\<open>barmaid_skip_padding\<close> are not checked.
\<close>

function parse_btw_pngs ::
  "(nat \<Rightarrow> mem) \<Rightarrow> nat \<Rightarrow> FILE \<Rightarrow> int \<Rightarrow> mem \<Rightarrow> 32 word \<Rightarrow> blobs
     \<Rightarrow> (blobs \<times> FILE) + (int \<times> mem \<times> blobs \<times> FILE)" where
  "parse_btw_pngs stk i fil start_of_blobsize buff blobsize b =
     (if i < 2
      then (case fseek fil start_of_blobsize of (r, fil1) \<Rightarrow>
             (case fread 4 fil1 of (data, fil2) \<Rightarrow>
                if length data = 0 then Inl (b, fil2)
                else
                  let buff1 = store buff 0 data;
                      blobsize1 = blobsize_loop buff1 blobsize;
                      b1 = b\<lparr>png_start := (png_start b)[i := start_of_blobsize + 4]\<rparr>;
                      b2 = b1\<lparr>png_end := (png_end b1)[i := png_start b1 ! i + uint blobsize1]\<rparr>
                  in (case barmaid_skip_padding (stk i) fil2 (png_end b2 ! i) of
                        (start1, fil3) \<Rightarrow>
                          parse_btw_pngs stk (i + 1) fil3 start1 buff1 blobsize1 b2)))
      else Inr (start_of_blobsize, buff, b, fil))"
  by pat_completeness auto
termination
  by (relation "measure (\<lambda>(stk, i, fil, start_of_blobsize, buff, blobsize, b). 2 - i)") auto

text \<open>
  Start and end of the container. \<^verbatim>\<open>fstat\<close> on the descriptor of an open regular
  file succeeds and reports the number of bytes of the file.
\<close>

definition parse_btw_container :: "FILE \<Rightarrow> int \<Rightarrow> mem \<Rightarrow> blobs \<Rightarrow> blobs \<times> FILE" where
  "parse_btw_container fil start_of_blobsize buff b =
     (let b1 = b\<lparr>container_start := start_of_blobsize\<rparr>
      in (case fread 2 fil of (data, fil1) \<Rightarrow>
            if length data \<noteq> 2 then (b1, fil1)
            else
              let buff1 = store buff 0 data;
                  b2 = (if memcmp_eq buff1 0 barmaid_btw_zlib
                        then b1\<lparr>container_start :=
                                  container_start b1 + int (length barmaid_btw_zlib),
                                container_zlib := True\<rparr>
                        else b1);
                  fd = fileno fil1
              in if fd = 0 then (b2, fil1)
                 else
                   let b3 = b2\<lparr>container_end := int (length (bytes fil1))\<rparr>
                   in if container_start b3 \<le> 0 \<or> container_end b3 \<le> 0 then (b3, fil1)
                      else (b3\<lparr>success := True\<rparr>, fil1)))"

text \<open>
  \<^verbatim>\<open>barmaid_parse_btw\<close>. \<open>stk\<close> gives the contents found in the local buffers: of
  \<^verbatim>\<open>barmaid_is_btw\<close>, of \<^verbatim>\<open>barmaid_find_seq\<close>, of the first padding skip, of the
  parser's own \<open>buff\<close>, and of the padding skips behind the two images.
\<close>

definition barmaid_parse_btw :: "(nat \<Rightarrow> mem) \<Rightarrow> FILE \<Rightarrow> blobs \<times> FILE" where
  "barmaid_parse_btw stk fil =
     (let b = blobs_init
      in (case barmaid_is_btw (stk 0) fil of (ok, fil1) \<Rightarrow>
            if \<not> ok then (b, fil1)
            else
              (case barmaid_find_seq (stk 1) fil1 (int (length barmaid_btw_mseq_sof))
                      barmaid_btw_end_of_meta of (found, fil2) \<Rightarrow>
                 if found < 0 then (b, fil2)
                 else
                   (case barmaid_skip_padding (stk 2) fil2
                           (found + int (length barmaid_btw_end_of_meta)) of
                      (start_of_blobsize, fil3) \<Rightarrow>
                        let b1 = b\<lparr>prefix_end := start_of_blobsize\<rparr>
                        in (case parse_btw_pngs (\<lambda>i. stk (4 + i)) 0 fil3 start_of_blobsize
                                   (stk 3) 0 b1 of
                              Inl r \<Rightarrow> r
                            | Inr (start1, buff, b2, fil4) \<Rightarrow>
                                parse_btw_container fil4 start1 buff b2)))))"

section \<open>The heuristic scanner\<close>

function heuristic_png_loop ::
  "(nat \<Rightarrow> mem) \<Rightarrow> nat \<Rightarrow> FILE \<Rightarrow> int \<Rightarrow> blobs \<Rightarrow> blobs \<times> FILE" where
  "heuristic_png_loop stk i fil offset b =
     (if i < 2
      then (case barmaid_find_seq (stk (2 * i)) fil offset barmaid_start_mseq_png of
              (s, fil1) \<Rightarrow>
                let b1 = b\<lparr>png_start := (png_start b)[i := s]\<rparr>
                in if png_start b1 ! i < 0 then (b1, fil1)
                   else
                     (case barmaid_find_seq (stk (2 * i + 1)) fil1 (png_start b1 ! i)
                             barmaid_end_mseq_png of
                        (e, fil2) \<Rightarrow>
                          let b2 = b1\<lparr>png_end := (png_end b1)[i := e]\<rparr>
                          in if png_end b2 ! i < 0 then (b2, fil2)
                             else
                               let b3 = b2\<lparr>png_end := (png_end b2)
                                          [i := png_end b2 ! i
                                                + int (length barmaid_end_mseq_png)]\<rparr>
                               in heuristic_png_loop stk (i + 1) fil2 (png_end b3 ! i) b3))
      else (b\<lparr>success := True\<rparr>, fil))"
  by pat_completeness auto
termination
  by (relation "measure (\<lambda>(stk, i, fil, offset, b). 2 - i)") auto

definition barmaid_heuristic_png :: "(nat \<Rightarrow> mem) \<Rightarrow> FILE \<Rightarrow> blobs \<times> FILE" where
  "barmaid_heuristic_png stk fil = heuristic_png_loop stk 0 fil 0 blobs_init"

section \<open>The range extractor\<close>

function dump_file_loop :: "mem \<Rightarrow> nat \<Rightarrow> nat \<Rightarrow> FILE \<Rightarrow> FILE \<Rightarrow> bool \<times> FILE \<times> FILE" where
  "dump_file_loop buff i size' infile outfile =
     (if i < size'
      then
        let chunk = min (size' - i) BUFF_SIZ
        in (case fread chunk infile of (data, infile1) \<Rightarrow>
              if length data \<noteq> chunk then (False, infile1, outfile)
              else
                let buff1 = store buff 0 data
                in (case fwrite (map buff1 [0 ..< chunk]) outfile of (n, outfile1) \<Rightarrow>
                      if n \<noteq> chunk then (False, infile1, outfile1)
                      else dump_file_loop buff1 (i + BUFF_SIZ) size' infile1 outfile1))
      else (True, infile, outfile))"
  by pat_completeness auto
termination
  by (relation "measure (\<lambda>(buff, i, size', infile, outfile). size' - i)")
     (auto simp: BUFF_SIZ_def)

text \<open>
  \<^verbatim>\<open>barmaid_dump_file\<close>: \<^verbatim>\<open>size_t size = end - start\<close> wraps modulo \<open>2^64\<close>; the
  results of the two \<^verbatim>\<open>fseek\<close> calls are not checked. The counter \<open>i\<close> of the
  loop is a natural number: it could wrap only behind \<open>2^64 - 8192\<close> copied bytes.
\<close>

definition barmaid_dump_file ::
  "mem \<Rightarrow> FILE \<Rightarrow> int \<Rightarrow> int \<Rightarrow> FILE \<Rightarrow> bool \<times> FILE \<times> FILE" where
  "barmaid_dump_file buff infile start end' outfile =
     (let size' = nat ((end' - start) mod 2 ^ 64);
          infile1 = snd (fseek infile start);
          outfile1 = snd (fseek outfile 0)
      in dump_file_loop buff 0 size' infile1 outfile1)"

text \<open>The structure \<open>b\<close> as the image loop leaves it, by \<^verbatim>\<open>return b\<close> or by running through.\<close>

definition pngs_blobs :: "(blobs \<times> FILE) + (int \<times> mem \<times> blobs \<times> FILE) \<Rightarrow> blobs" where
  "pngs_blobs r = (case r of Inl (b, fil) \<Rightarrow> b | Inr (start_of_blobsize, buff, b, fil) \<Rightarrow> b)"

section \<open>Example streams\<close>

text \<open>
  The head of a small file of the format: the signature, the end-of-metadata marker,
  one word of padding, a 2-byte image, padding, a 1-byte image, padding. Three files
  continue it: with a compressed container, with an uncompressed container, and with a
  single byte.
\<close>

definition btw_head :: "byte list" where
  "btw_head = barmaid_btw_mseq_sof @ barmaid_btw_end_of_meta @
     [0x00, 0x00, 0x00, 0x00,
      0x02, 0x00, 0x00, 0x00, 0xAA, 0xBB,
      0x00, 0x00, 0x00, 0x00,
      0x01, 0x00, 0x00, 0x00, 0xCC,
      0x00, 0x00, 0x00, 0x00]"

definition btw_example :: "byte list" where
  "btw_example = btw_head @ [0x00, 0x01, 0x78, 0x9C]"

definition btw_plain :: "byte list" where
  "btw_plain = btw_head @ [0x78, 0x9C, 0x01, 0x02]"

definition btw_cut :: "byte list" where
  "btw_cut = btw_head @ [0xAB]"

text \<open>Two images back to back, as the heuristic scanner looks for them.\<close>

definition png_pair :: "byte list" where
  "png_pair = barmaid_start_mseq_png @ barmaid_end_mseq_png @
     barmaid_start_mseq_png @ barmaid_end_mseq_png"

text \<open>A source of 30 distinct bytes for the range extractor.\<close>

definition src30 :: "byte list" where
  "src30 = [0, 1, 2, 3, 4, 5, 6, 7, 8, 9, 10, 11, 12, 13, 14, 15, 16, 17, 18, 19,
            20, 21, 22, 23, 24, 25, 26, 27, 28, 29]"

text \<open>
  Two streams for the sequence scanner. The first is one full chunk and one byte more;
  the end-of-metadata marker \<open>FF FE FF 00\<close> does not occur in it. The second is two
  full chunks, with the image end marker at bytes 8190 to 8201, across the first chunk
  boundary.
\<close>

definition stale_stream :: "byte list" where
  "stale_stream = [0x01, 0xFE, 0xFF, 0x00] @ replicate 8188 0x00 @ [0xFF]"

definition straddle_stream :: "byte list" where
  "straddle_stream = replicate 8190 0xFF @ barmaid_end_mseq_png @ replicate 8182 0xFF"

text \<open>
  A stream of 4294974500 bytes: an image signature at offset 0, an end marker at
  offset \<open>2^31 - 1000\<close>, a second signature at offset \<open>2^32 + 12\<close>, bytes \<open>FF\<close>
  everywhere else.
\<close>

definition far_pair :: "byte list" where
  "far_pair = barmaid_start_mseq_png @ replicate 2147482632 0xFF @ barmaid_end_mseq_png @
     replicate 2147484648 0xFF @ barmaid_start_mseq_png @ replicate 7176 0xFF"

declare find_seq_scan.simps [simp del]
declare find_seq_loop.simps [simp del]
declare skip_padding_loop.simps [simp del]
declare parse_btw_pngs.simps [simp del]
declare heuristic_png_loop.simps [simp del]
declare dump_file_loop.simps [simp del]

section \<open>The padding skipper: properties\<close>

text \<open>
  Claim C6 says that the padding skipper reports not-found whenever a full 4-byte read
  cannot be completed. On the one-byte stream \<open>42\<close> no 4-byte read can be completed,
  yet the skipper returns offset 0 as the start of a non-zero word, whatever its
  buffer held before: only a read of zero bytes is taken as a failed read.
\<close>

theorem skip_padding_short_read_found:
  "length (bytes (fopen_rb [0x42] fd)) < 4 \<and>
   barmaid_skip_padding buff (fopen_rb [0x42] fd) 0 = (0, fopen_rb [0x42] fd)"
  by (simp add: barmaid_skip_padding_def skip_padding_loop.simps fseek_def fopen_rb_def
        fread_def ftell_def store_def)

lemma fread_facts:
  assumes "fread n fil = (data, fil1)"
  shows "bytes fil1 = bytes fil" "fileno fil1 = fileno fil"
    "pos fil1 = pos fil + length data" "data = take n (drop (pos fil) (bytes fil))"
  using assms by (auto simp: fread_def Let_def)

lemma fread_empty_iff:
  "0 < n \<Longrightarrow> fst (fread n fil) = [] \<longleftrightarrow> length (bytes fil) \<le> pos fil"
  by (auto simp: fread_def Let_def)

lemma fseek_same_pos: "snd (fseek (fil\<lparr>pos := p\<rparr>) (int q)) = fil\<lparr>pos := q\<rparr>"
  by (simp add: fseek_def)

lemma skip_padding_loop_unfold:
  assumes "fread 4 fil = (data, f1)"
  shows "skip_padding_loop buff fil =
     (if data = [] then (- 1, fil)
      else if store buff 0 data 0 \<noteq> 0 \<or> store buff 0 data 1 \<noteq> 0 \<or>
              store buff 0 data 2 \<noteq> 0 \<or> store buff 0 data 3 \<noteq> 0
           then (int (pos fil), fil)
           else skip_padding_loop (store buff 0 data) f1)"
proof -
  have "snd (fseek f1 (int (pos fil))) = fil"
    using assms by (auto simp: fread_def fseek_def Let_def)
  then show ?thesis
    using assms by (subst skip_padding_loop.simps) (simp add: Let_def ftell_def)
qed

lemma skip_padding_loop_facts:
  "skip_padding_loop buff fil = (r, fil1) \<Longrightarrow>
     bytes fil1 = bytes fil \<and> fileno fil1 = fileno fil \<and>
     ((r = - 1 \<and> length (bytes fil) \<le> pos fil1) \<or>
      (r = int (pos fil1) \<and> pos fil \<le> pos fil1 \<and> pos fil1 < length (bytes fil)))"
proof (induction buff fil arbitrary: r fil1 rule: skip_padding_loop.induct)
  case (1 buff fil)
  obtain data f1 where rd: "fread 4 fil = (data, f1)" by (cases "fread 4 fil")
  note f = fread_facts [OF rd]
  note eq = skip_padding_loop_unfold [OF rd, of buff]
  let ?b = "store buff 0 data"
  consider (eof) "data = []"
    | (word) "data \<noteq> []" "?b 0 \<noteq> 0 \<or> ?b 1 \<noteq> 0 \<or> ?b 2 \<noteq> 0 \<or> ?b 3 \<noteq> 0"
    | (zero) "data \<noteq> []" "\<not> (?b 0 \<noteq> 0 \<or> ?b 1 \<noteq> 0 \<or> ?b 2 \<noteq> 0 \<or> ?b 3 \<noteq> 0)"
    by blast
  then show ?case
  proof cases
    case eof
    with "1.prems" eq f(4) show ?thesis by auto
  next
    case word
    with "1.prems" eq f(4) show ?thesis by auto
  next
    case zero
    with "1.prems" eq have rec: "skip_padding_loop ?b f1 = (r, fil1)" by simp
    from zero(1) have ne: "length data \<noteq> 0" by simp
    from "1.IH" [OF refl rd [symmetric] ne refl zero(2) rec] f show ?thesis
      by auto
  qed
qed

lemma skip_padding_facts:
  assumes "barmaid_skip_padding buff fil offset = (r, fil1)" "0 \<le> offset"
  shows "bytes fil1 = bytes fil \<and> fileno fil1 = fileno fil \<and>
     ((r = - 1 \<and> length (bytes fil) \<le> pos fil1) \<or>
      (r = int (pos fil1) \<and> offset \<le> r \<and> pos fil1 < length (bytes fil)))"
  using assms skip_padding_loop_facts [of buff "fil\<lparr>pos := nat offset\<rparr>" r fil1]
  by (auto simp: barmaid_skip_padding_def fseek_def)

lemma find_seq_scan_Some:
  "find_seq_scan buf seq i rd = Some k \<Longrightarrow>
     i \<le> k \<and> k < rd \<and> memcmp_eq buf (nat (int LONGEST_MAGIC_STRING + k)) seq \<and>
     (\<forall>j. i \<le> j \<and> j < k \<longrightarrow> \<not> memcmp_eq buf (nat (int LONGEST_MAGIC_STRING + j)) seq)"
proof (induction buf seq i rd rule: find_seq_scan.induct)
  case (1 buf seq i rd)
  show ?case
  proof (cases "i < rd \<and> \<not> memcmp_eq buf (nat (int LONGEST_MAGIC_STRING + i)) seq")
    case True
    with "1.prems" have "find_seq_scan buf seq (i + 1) rd = Some k"
      by (simp add: find_seq_scan.simps [of buf seq i rd])
    with "1.IH" True have ih: "i + 1 \<le> k \<and> k < rd \<and>
        memcmp_eq buf (nat (int LONGEST_MAGIC_STRING + k)) seq \<and>
        (\<forall>j. i + 1 \<le> j \<and> j < k \<longrightarrow> \<not> memcmp_eq buf (nat (int LONGEST_MAGIC_STRING + j)) seq)"
      by blast
    have "\<not> memcmp_eq buf (nat (int LONGEST_MAGIC_STRING + j)) seq" if "i \<le> j" "j < k" for j
    proof (cases "j = i")
      case True
      with \<open>i < rd \<and> \<not> memcmp_eq buf (nat (int LONGEST_MAGIC_STRING + i)) seq\<close> show ?thesis by simp
    next
      case False
      with that have "i + 1 \<le> j" by simp
      with ih that show ?thesis by blast
    qed
    with ih show ?thesis by auto
  next
    case False
    with "1.prems" show ?thesis
      by (auto simp: find_seq_scan.simps [of buf seq i rd] split: if_splits)
  qed
qed

lemma find_seq_scan_None:
  "(\<And>j. i \<le> j \<Longrightarrow> j < rd \<Longrightarrow> \<not> memcmp_eq buf (nat (int LONGEST_MAGIC_STRING + j)) seq)
     \<Longrightarrow> find_seq_scan buf seq i rd = None"
proof (induction buf seq i rd rule: find_seq_scan.induct)
  case (1 buf seq i rd)
  show ?case
  proof (cases "i < rd")
    case True
    with "1.prems" [of i] have nm: "\<not> memcmp_eq buf (nat (int LONGEST_MAGIC_STRING + i)) seq"
      by simp
    have "find_seq_scan buf seq (i + 1) rd = None"
      using True nm "1.prems" by (intro "1.IH") auto
    with True nm show ?thesis
      by (simp add: find_seq_scan.simps [of buf seq i rd])
  next
    case False
    then show ?thesis by (simp add: find_seq_scan.simps [of buf seq i rd])
  qed
qed

lemma find_seq_scan_first:
  "i \<le> k \<Longrightarrow> k < rd \<Longrightarrow> memcmp_eq buf (nat (int LONGEST_MAGIC_STRING + k)) seq \<Longrightarrow>
   (\<And>j. i \<le> j \<Longrightarrow> j < k \<Longrightarrow> \<not> memcmp_eq buf (nat (int LONGEST_MAGIC_STRING + j)) seq)
     \<Longrightarrow> find_seq_scan buf seq i rd = Some k"
proof (induction buf seq i rd rule: find_seq_scan.induct)
  case (1 buf seq i rd)
  show ?case
  proof (cases "i = k")
    case True
    with "1.prems" show ?thesis by (simp add: find_seq_scan.simps [of buf seq k rd])
  next
    case False
    with "1.prems"(1) have lt: "i < k" by simp
    with "1.prems" have nm: "\<not> memcmp_eq buf (nat (int LONGEST_MAGIC_STRING + i)) seq"
      and ird: "i < rd" by auto
    have "find_seq_scan buf seq (i + 1) rd = Some k"
      using ird nm lt "1.prems" by (intro "1.IH") auto
    with ird nm show ?thesis by (simp add: find_seq_scan.simps [of buf seq i rd])
  qed
qed

lemma find_seq_loop_eof:
  "length (bytes fil) \<le> pos fil \<Longrightarrow> find_seq_loop buf cc fil offset seq = (- 1, fil)"
  by (subst find_seq_loop.simps) (simp add: fread_def BUFF_SIZ_def)

lemma sint_of_small:
  fixes w :: "32 word"
  assumes "unat w = n" and "n < 2 ^ 31"
  shows "sint w = int n"
proof -
  have k: "uint w = int n" using assms(1) by (simp only: uint_nat)
  have "sint w = signed_take_bit 31 (uint w)"
    by (simp add: sint_uint)
  also have "\<dots> = int n"
    unfolding k by (rule signed_take_bit_int_eq_self) (use assms(2) in simp_all)
  finally show ?thesis .
qed

lemma chunk_product_no_wrap:
  fixes cc :: "32 word"
  assumes "unat cc * BUFF_SIZ < 2 ^ 31"
  shows "sint (cc * of_nat BUFF_SIZ) = int (unat cc * BUFF_SIZ)"
proof -
  have "unat (cc * of_nat BUFF_SIZ) = (unat cc * 8192) mod 2 ^ 32"
    by (simp add: unat_word_ariths BUFF_SIZ_def)
  also have "\<dots> = unat cc * 8192" using assms by (simp add: BUFF_SIZ_def)
  finally have u: "unat (cc * of_nat BUFF_SIZ) = unat cc * BUFF_SIZ"
    by (simp add: BUFF_SIZ_def)
  show ?thesis by (rule sint_of_small [OF u assms])
qed

lemma chunk_count_succ: "unat (cc + 1 :: 32 word) \<le> unat cc + 1"
proof -
  have "unat (cc + 1) = (unat cc + 1) mod 2 ^ 32" by (simp add: unat_word_ariths)
  then show ?thesis by (metis mod_less_eq_dividend)
qed

lemma find_seq_loop_unfold:
  assumes rd: "fread BUFF_SIZ fil = (data, f1)"
    and b: "buf2 = (if cc \<noteq> 0
      then memmove (store buf LONGEST_MAGIC_STRING data) 0 BUFF_SIZ LONGEST_MAGIC_STRING
      else store buf LONGEST_MAGIC_STRING data)"
    and i: "i0 = (if cc \<noteq> 0 then - int LONGEST_MAGIC_STRING else 0)"
  shows "find_seq_loop buf cc fil offset seq =
     (if length data = 0 then (- 1, f1)
      else case find_seq_scan buf2 seq i0 (int (length data)) of
             Some i \<Rightarrow> (offset + i + sint (cc * of_nat BUFF_SIZ),
                         snd (fseek f1 (offset + i + sint (cc * of_nat BUFF_SIZ))))
           | None \<Rightarrow> find_seq_loop buf2 (cc + 1) f1 offset seq)"
  unfolding b i
  by (subst find_seq_loop.simps) (simp add: rd Let_def split: option.split)

lemma find_seq_loop_facts:
  "find_seq_loop buf cc fil offset seq = (r, fil1) \<Longrightarrow>
     bytes fil1 = bytes fil \<and> fileno fil1 = fileno fil"
proof (induction buf cc fil offset seq arbitrary: r fil1 rule: find_seq_loop.induct)
  case (1 buf cc fil offset seq)
  obtain data f1 where rd: "fread BUFF_SIZ fil = (data, f1)" by (cases "fread BUFF_SIZ fil")
  note f = fread_facts [OF rd]
  define buf2 where "buf2 = (if cc \<noteq> 0
      then memmove (store buf LONGEST_MAGIC_STRING data) 0 BUFF_SIZ LONGEST_MAGIC_STRING
      else store buf LONGEST_MAGIC_STRING data)"
  define i0 where "i0 = (if cc \<noteq> 0 then - int LONGEST_MAGIC_STRING else 0)"
  note eq = find_seq_loop_unfold [OF rd buf2_def i0_def, of offset seq]
  show ?case
  proof (cases "length data = 0")
    case True
    with "1.prems" eq f show ?thesis by auto
  next
    case ne: False
    show ?thesis
    proof (cases "find_seq_scan buf2 seq i0 (int (length data))")
      case None
      with "1.prems" eq ne have rec: "find_seq_loop buf2 (cc + 1) f1 offset seq = (r, fil1)"
        by simp
      from "1.IH" [OF rd [symmetric] ne refl _ _ _ rec] None f(1,2) show ?thesis
        by (auto simp: buf2_def i0_def)
    next
      case (Some i)
      from "1.prems"(1) eq ne Some
      have "fil1 = snd (fseek f1 (offset + i + sint (cc * of_nat BUFF_SIZ)))"
        by auto
      with f(1,2) show ?thesis
        by (auto simp: fseek_def)
    qed
  qed
qed

text \<open>
  As long as the stream is shorter than \<open>2^31\<close> bytes the chunk counter times
  \<^verbatim>\<open>BUFF_SIZ\<close> stays below the cursor, the 32-bit product does not wrap, and the
  offset reported is at or behind the offset the search started from.
\<close>

lemma find_seq_loop_ordered:
  "find_seq_loop buf cc fil offset seq = (r, fil1) \<Longrightarrow> unat cc * BUFF_SIZ \<le> pos fil \<Longrightarrow>
   length (bytes fil) < 2 ^ 31 \<Longrightarrow> r = - 1 \<or> offset \<le> r"
proof (induction buf cc fil offset seq arbitrary: r fil1 rule: find_seq_loop.induct)
  case (1 buf cc fil offset seq)
  obtain data f1 where rd: "fread BUFF_SIZ fil = (data, f1)" by (cases "fread BUFF_SIZ fil")
  note f = fread_facts [OF rd]
  define buf2 where "buf2 = (if cc \<noteq> 0
      then memmove (store buf LONGEST_MAGIC_STRING data) 0 BUFF_SIZ LONGEST_MAGIC_STRING
      else store buf LONGEST_MAGIC_STRING data)"
  define i0 where "i0 = (if cc \<noteq> 0 then - int LONGEST_MAGIC_STRING else 0)"
  note eq = find_seq_loop_unfold [OF rd buf2_def i0_def, of offset seq]
  have data: "data = take BUFF_SIZ (drop (pos fil) (bytes fil))"
    and pf1: "pos f1 = pos fil + length data"
    using rd by (auto simp: fread_def Let_def)
  show ?case
  proof (cases "length data = 0")
    case True
    with "1.prems" eq show ?thesis by auto
  next
    case ne: False
    then have inside: "pos fil < length (bytes fil)" by (auto simp: data)
    show ?thesis
    proof (cases "find_seq_scan buf2 seq i0 (int (length data))")
      case None
      with "1.prems" eq ne have rec: "find_seq_loop buf2 (cc + 1) f1 offset seq = (r, fil1)"
        by simp
      show ?thesis
      proof (cases "length data = BUFF_SIZ")
        case True
        have "unat (cc + 1) * BUFF_SIZ \<le> (unat cc + 1) * BUFF_SIZ"
          using chunk_count_succ [of cc] by (rule mult_le_mono1)
        also have "\<dots> \<le> pos f1" using "1.prems"(2) True by (simp add: pf1)
        finally have inv: "unat (cc + 1) * BUFF_SIZ \<le> pos f1" .
        have len: "length (bytes f1) < 2 ^ 31" using "1.prems"(3) f(1) by simp
        from "1.IH" [OF rd [symmetric] ne refl _ _ _ rec inv len] None show ?thesis
          by (auto simp: buf2_def i0_def)
      next
        case False
        then have "length (bytes fil) - pos fil < BUFF_SIZ"
          by (simp add: data min_def split: if_splits)
        then have "length (bytes f1) \<le> pos f1" using f(1) by (simp add: pf1 data)
        from find_seq_loop_eof [OF this] rec show ?thesis by simp
      qed
    next
      case (Some i)
      from find_seq_scan_Some [OF Some] have i: "i0 \<le> i" by simp
      have small: "unat cc * BUFF_SIZ < 2 ^ 31"
        using "1.prems"(2,3) inside by linarith
      note prod = chunk_product_no_wrap [OF small]
      have "0 \<le> i0 + sint (cc * of_nat BUFF_SIZ)"
      proof (cases "cc = 0")
        case True
        then show ?thesis by (simp add: i0_def)
      next
        case False
        then have "0 < unat cc" by (simp add: unat_gt_0)
        then have "BUFF_SIZ \<le> unat cc * BUFF_SIZ" by simp
        then have "int BUFF_SIZ \<le> sint (cc * of_nat BUFF_SIZ)" unfolding prod by linarith
        then show ?thesis by (simp add: i0_def BUFF_SIZ_def LONGEST_MAGIC_STRING_def)
      qed
      with i have le: "offset \<le> offset + i + sint (cc * of_nat BUFF_SIZ)" by simp
      from "1.prems"(1) eq ne Some
      have "r = offset + i + sint (cc * of_nat BUFF_SIZ)" by auto
      with le show ?thesis by simp
    qed
  qed
qed

lemma find_seq_facts:
  assumes "barmaid_find_seq buf fil offset seq = (r, fil1)" "0 \<le> offset"
  shows "bytes fil1 = bytes fil \<and> fileno fil1 = fileno fil"
  using assms find_seq_loop_facts [of buf 0 "fil\<lparr>pos := nat offset\<rparr>" offset seq r fil1]
  by (auto simp: barmaid_find_seq_def fseek_def)

lemma find_seq_ordered:
  assumes "barmaid_find_seq buf fil offset seq = (r, fil1)" "0 \<le> offset"
    and "length (bytes fil) < 2 ^ 31"
  shows "r = - 1 \<or> offset \<le> r"
  using assms find_seq_loop_ordered [of buf 0 "fil\<lparr>pos := nat offset\<rparr>" offset seq r fil1]
  by (auto simp: barmaid_find_seq_def fseek_def)

lemma find_seq_past_end:
  assumes "0 \<le> offset" "int (length (bytes fil)) \<le> offset"
  shows "fst (barmaid_find_seq buf fil offset seq) = - 1"
  using assms by (simp add: barmaid_find_seq_def fseek_def find_seq_loop_eof)

lemma map_store_0: "map (store buff 0 data) [0 ..< length data] = data"
  by (rule nth_equalityI) (simp_all add: store_def)

lemma memcmp_store:
  assumes "j + length seq \<le> length data"
  shows "memcmp_eq (store buf k data) (k + j) seq \<longleftrightarrow> take (length seq) (drop j data) = seq"
proof -
  have "map (store buf k data) [k + j ..< k + j + length seq] = take (length seq) (drop j data)"
    using assms by (intro nth_equalityI) (auto simp: store_def)
  then show ?thesis by (simp add: memcmp_eq_def)
qed

lemma take_drop_take:
  "j + l \<le> n \<Longrightarrow> take l (drop j (take n xs)) = take l (drop j xs)"
  by (simp add: drop_take min_def)

lemma find_seq_loop_first_chunk:
  assumes le: "pos fil \<le> p"
    and inb: "p + length seq \<le> length (bytes fil)"
    and inc: "p + length seq \<le> pos fil + BUFF_SIZ"
    and ne: "seq \<noteq> []"
    and hit: "take (length seq) (drop p (bytes fil)) = seq"
    and first: "\<And>q. pos fil \<le> q \<Longrightarrow> q < p \<Longrightarrow> take (length seq) (drop q (bytes fil)) \<noteq> seq"
  shows "find_seq_loop buf 0 fil offset seq =
           (offset + int (p - pos fil),
            snd (fseek (snd (fread BUFF_SIZ fil)) (offset + int (p - pos fil))))"
proof -
  define data where "data = take BUFF_SIZ (drop (pos fil) (bytes fil))"
  define k where "k = p - pos fil"
  define f1 where "f1 = snd (fread BUFF_SIZ fil)"
  have rd: "fread BUFF_SIZ fil = (data, f1)"
    by (simp add: fread_def data_def f1_def Let_def)
  have L: "0 < length seq" using ne by simp
  have len: "length data = min BUFF_SIZ (length (bytes fil) - pos fil)"
    by (simp add: data_def)
  have kin: "k + length seq \<le> length data"
    using le inb inc unfolding len k_def by linarith
  have sub: "take (length seq) (drop j data) = take (length seq) (drop (pos fil + j) (bytes fil))"
    if "j + length seq \<le> length data" for j
  proof -
    from that have "j + length seq \<le> BUFF_SIZ" by (simp add: len)
    then show ?thesis
      unfolding data_def by (simp add: take_drop_take add.commute)
  qed
  have mk: "memcmp_eq (store buf LONGEST_MAGIC_STRING data)
              (nat (int LONGEST_MAGIC_STRING + int j)) seq
            \<longleftrightarrow> take (length seq) (drop (pos fil + j) (bytes fil)) = seq"
    if "j + length seq \<le> length data" for j
  proof -
    have "nat (int LONGEST_MAGIC_STRING + int j) = LONGEST_MAGIC_STRING + j" by simp
    with memcmp_store [OF that, of buf LONGEST_MAGIC_STRING] sub [OF that] show ?thesis by simp
  qed
  have scan: "find_seq_scan (store buf LONGEST_MAGIC_STRING data) seq 0 (int (length data))
                = Some (int k)"
  proof (rule find_seq_scan_first)
    show "0 \<le> int k" by simp
    show "int k < int (length data)" using kin L by linarith
    show "memcmp_eq (store buf LONGEST_MAGIC_STRING data)
            (nat (int LONGEST_MAGIC_STRING + int k)) seq"
      using mk [OF kin] hit le by (simp add: k_def)
  next
    fix j :: int
    assume j: "0 \<le> j" "j < int k"
    then have jn: "nat j + length seq \<le> length data" "nat j < k" using kin by auto
    have "take (length seq) (drop (pos fil + nat j) (bytes fil)) \<noteq> seq"
      using jn(2) le by (intro first) (auto simp: k_def)
    with mk [OF jn(1)] j(1)
    show "\<not> memcmp_eq (store buf LONGEST_MAGIC_STRING data)
            (nat (int LONGEST_MAGIC_STRING + j)) seq"
      by simp
  qed
  have "length data \<noteq> 0" using kin L by linarith
  then show ?thesis
    unfolding f1_def [symmetric]
    by (subst find_seq_loop.simps) (simp add: rd scan Let_def k_def)
qed

lemma find_seq_first_chunk:
  assumes "0 \<le> offset" "nat offset \<le> p"
    and "p + length seq \<le> length (bytes fil)"
    and "p + length seq \<le> nat offset + BUFF_SIZ"
    and "seq \<noteq> []"
    and "take (length seq) (drop p (bytes fil)) = seq"
    and "\<And>q. nat offset \<le> q \<Longrightarrow> q < p \<Longrightarrow> take (length seq) (drop q (bytes fil)) \<noteq> seq"
  shows "barmaid_find_seq buf fil offset seq = (int p, fil\<lparr>pos := p\<rparr>)"
proof -
  let ?f = "fil\<lparr>pos := nat offset\<rparr>"
  have "find_seq_loop buf 0 ?f offset seq =
           (offset + int (p - pos ?f),
            snd (fseek (snd (fread BUFF_SIZ ?f)) (offset + int (p - pos ?f))))"
    using assms by (intro find_seq_loop_first_chunk) auto
  moreover have "offset + int (p - pos ?f) = int p" using assms(1,2) by simp
  ultimately show ?thesis
    using assms(1) by (simp add: barmaid_find_seq_def fseek_def fread_def Let_def)
qed

lemma mseq_lengths:
  "length barmaid_btw_mseq_sof = 26" "length barmaid_btw_end_of_meta = 4"
  "length barmaid_start_mseq_png = 16" "length barmaid_end_mseq_png = 12"
  "length barmaid_btw_zlib = 2"
  by (simp_all add: barmaid_btw_mseq_sof_def barmaid_btw_end_of_meta_def
        barmaid_start_mseq_png_def barmaid_end_mseq_png_def barmaid_btw_zlib_def)

lemma btw_example_unfold:
  "btw_example = [0x0D, 0x0A, 0x42, 0x61, 0x72, 0x20, 0x54, 0x65, 0x6E, 0x64, 0x65, 0x72, 0x20,
      0x46, 0x6F, 0x72, 0x6D, 0x61, 0x74, 0x20, 0x46, 0x69, 0x6C, 0x65, 0x0D, 0x0A,
      0xFF, 0xFE, 0xFF, 0x00, 0x00, 0x00, 0x00, 0x00,
      0x02, 0x00, 0x00, 0x00, 0xAA, 0xBB,
      0x00, 0x00, 0x00, 0x00,
      0x01, 0x00, 0x00, 0x00, 0xCC,
      0x00, 0x00, 0x00, 0x00,
      0x00, 0x01, 0x78, 0x9C]"
  by (simp add: btw_example_def btw_head_def barmaid_btw_mseq_sof_def
        barmaid_btw_end_of_meta_def)

lemma btw_example_find_meta:
  "barmaid_find_seq buf \<lparr>bytes = btw_example, pos = n, fileno = fd\<rparr> 26 barmaid_btw_end_of_meta
     = (26, \<lparr>bytes = btw_example, pos = 26, fileno = fd\<rparr>)"
proof -
  have "barmaid_find_seq buf \<lparr>bytes = btw_example, pos = n, fileno = fd\<rparr> 26
          barmaid_btw_end_of_meta
        = (int 26, \<lparr>bytes = btw_example, pos = n, fileno = fd\<rparr>\<lparr>pos := 26\<rparr>)"
    by (rule find_seq_first_chunk)
       (simp_all add: btw_example_unfold barmaid_btw_end_of_meta_def BUFF_SIZ_def)
  then show ?thesis by simp
qed

lemma btw_example_parse:
  assumes "fd \<noteq> 0"
  shows "barmaid_parse_btw stk (fopen_rb btw_example fd) =
     (\<lparr>success = True, prefix_end = 34, png_start = [38, 48], png_end = [40, 49],
        container_zlib = True, container_start = 55, container_end = 57\<rparr>,
      \<lparr>bytes = btw_example, pos = 55, fileno = fd\<rparr>)"
proof -
  let ?f = "\<lambda>n. \<lparr>bytes = btw_example, pos = n, fileno = fd\<rparr>"
  have s1: "barmaid_is_btw (stk 0) (fopen_rb btw_example fd) = (True, ?f 26)"
    by (simp add: barmaid_is_btw_def fopen_rb_def fread_def memcmp_eq_def store_def
          btw_example_unfold barmaid_btw_mseq_sof_def upt_rec_numeral Let_def)
  have s3: "barmaid_skip_padding (stk 2) (?f 26) 30 = (34, ?f 34)"
    by (simp add: barmaid_skip_padding_def skip_padding_loop.simps fseek_def fread_def
          ftell_def store_def btw_example_unfold Let_def)
  have sk: "barmaid_skip_padding buff (?f n) 40 = (44, ?f 44)"
    "barmaid_skip_padding buff (?f n) 49 = (53, ?f 53)" for buff n
    by (simp_all add: barmaid_skip_padding_def skip_padding_loop.simps fseek_def fread_def
          ftell_def store_def btw_example_unfold Let_def)
  have rd: "fread 4 (?f 34) = ([0x02, 0x00, 0x00, 0x00], ?f 38)"
    "fread 4 (?f 44) = ([0x01, 0x00, 0x00, 0x00], ?f 48)"
    "fread 2 (?f 53) = ([0x00, 0x01], ?f 55)"
    by (simp_all add: fread_def btw_example_unfold Let_def)
  have sek: "fseek (?f n) 34 = (0, ?f 34)" "fseek (?f n) 44 = (0, ?f 44)" for n
    by (simp_all add: fseek_def)
  have s4: "parse_btw_pngs (\<lambda>i. stk (4 + i)) 0 (?f 34) 34 (stk 3) 0
       (blobs_init\<lparr>prefix_end := 34\<rparr>) =
     Inr (53, store (store (stk 3) 0 [0x02, 0x00, 0x00, 0x00]) 0 [0x01, 0x00, 0x00, 0x00],
          blobs_init\<lparr>prefix_end := 34, png_start := [38, 48], png_end := [40, 49]\<rparr>, ?f 53)"
    apply (subst parse_btw_pngs.simps)
    apply (simp add: sek rd blobsize_loop_def store_def sk blobs_init_def Let_def)
    apply (subst parse_btw_pngs.simps)
    apply (simp add: sek rd blobsize_loop_def store_def sk blobs_init_def Let_def)
    apply (subst parse_btw_pngs.simps)
    apply (simp add: store_def)
    done
  have len: "length btw_example = 57"
    by (simp add: btw_example_unfold)
  have s5: "parse_btw_container (?f 53) 53 buff
       (blobs_init\<lparr>prefix_end := 34, png_start := [38, 48], png_end := [40, 49]\<rparr>) =
     (\<lparr>success = True, prefix_end = 34, png_start = [38, 48], png_end = [40, 49],
        container_zlib = True, container_start = 55, container_end = 57\<rparr>, ?f 55)" for buff
    using assms
    by (simp add: parse_btw_container_def rd store_def memcmp_eq_def
          barmaid_btw_zlib_def blobs_init_def upt_rec_numeral Let_def len)
  show ?thesis
    by (simp add: barmaid_parse_btw_def s1 btw_example_find_meta mseq_lengths s3 s4 s5)
qed

lemma is_btw_full:
  assumes "length barmaid_btw_mseq_sof \<le> length (bytes fil) - pos fil"
  shows "fst (barmaid_is_btw buff fil) \<longleftrightarrow>
     take (length barmaid_btw_mseq_sof) (drop (pos fil) (bytes fil)) = barmaid_btw_mseq_sof"
proof -
  let ?data = "take (length barmaid_btw_mseq_sof) (drop (pos fil) (bytes fil))"
  have len: "length ?data = length barmaid_btw_mseq_sof" using assms by simp
  have "memcmp_eq (store buff 0 ?data) 0 barmaid_btw_mseq_sof \<longleftrightarrow> ?data = barmaid_btw_mseq_sof"
    unfolding memcmp_eq_def using map_store_0 [of buff ?data] len by simp
  moreover have "length ?data \<noteq> 0" using len by (simp add: barmaid_btw_mseq_sof_def)
  ultimately show ?thesis
    by (simp add: barmaid_is_btw_def fread_def Let_def del: length_take)
qed

section \<open>The layout parser: the signature gate\<close>

text \<open>
  Claim C7: a stream whose first 26 bytes are not the start signature is rejected by
  \<^verbatim>\<open>barmaid_parse_btw\<close>, whatever else it contains; this includes every stream
  shorter than 26 bytes. The stream is the one \<^verbatim>\<open>main\<close> hands over, opened and not
  yet read. On a short stream the comparison of \<^verbatim>\<open>barmaid_is_btw\<close> looks at buffer
  bytes that were never written and may succeed; the parse fails all the same, in the
  search for the end-of-metadata marker behind the end of the stream.
\<close>

theorem parse_btw_rejects_missing_signature:
  assumes "take (length barmaid_btw_mseq_sof) bs \<noteq> barmaid_btw_mseq_sof"
  shows "fst (barmaid_parse_btw stk (fopen_rb bs fd)) = blobs_init \<and>
         \<not> success (fst (barmaid_parse_btw stk (fopen_rb bs fd)))"
proof -
  let ?fil = "fopen_rb bs fd"
  obtain ok f1 where ib: "barmaid_is_btw (stk 0) ?fil = (ok, f1)"
    by (cases "barmaid_is_btw (stk 0) ?fil")
  have f1: "bytes f1 = bs"
    using ib by (auto simp: barmaid_is_btw_def fread_def fopen_rb_def Let_def)
  have res: "fst (barmaid_parse_btw stk ?fil) = blobs_init"
  proof (cases ok)
    case False
    with ib show ?thesis by (simp add: barmaid_parse_btw_def)
  next
    case True
    have short: "length bs < length barmaid_btw_mseq_sof"
    proof (rule ccontr)
      assume "\<not> length bs < length barmaid_btw_mseq_sof"
      then have "length barmaid_btw_mseq_sof \<le> length (bytes ?fil) - pos ?fil"
        by (simp add: fopen_rb_def)
      from is_btw_full [OF this, of "stk 0"] ib True assms show False
        by (simp add: fopen_rb_def)
    qed
    obtain found f2 where fs: "barmaid_find_seq (stk 1) f1 (int (length barmaid_btw_mseq_sof))
        barmaid_btw_end_of_meta = (found, f2)"
      by (cases "barmaid_find_seq (stk 1) f1 (int (length barmaid_btw_mseq_sof))
        barmaid_btw_end_of_meta")
    have "fst (barmaid_find_seq (stk 1) f1 (int (length barmaid_btw_mseq_sof))
        barmaid_btw_end_of_meta) = - 1"
      using short f1 by (intro find_seq_past_end) auto
    with fs have "found < 0" by simp
    with ib True fs show ?thesis by (simp add: barmaid_parse_btw_def)
  qed
  then show ?thesis by (simp add: blobs_init_def)
qed

theorem parse_btw_rejects_missing_signature_witness:
  "take (length barmaid_btw_mseq_sof) (barmaid_start_mseq_png @ barmaid_end_mseq_png
       @ barmaid_start_mseq_png @ barmaid_end_mseq_png) \<noteq> barmaid_btw_mseq_sof \<and>
   \<not> success (fst (barmaid_parse_btw (\<lambda>_ _. 0) (fopen_rb (barmaid_start_mseq_png @ barmaid_end_mseq_png
       @ barmaid_start_mseq_png @ barmaid_end_mseq_png) 3))) \<and>
   take (length barmaid_btw_mseq_sof) [0x0D, 0x0A, 0x42] \<noteq> barmaid_btw_mseq_sof \<and>
   \<not> success (fst (barmaid_parse_btw (\<lambda>_ _. 0) (fopen_rb [0x0D, 0x0A, 0x42] 3)))"
proof -
  have a: "take (length barmaid_btw_mseq_sof) (barmaid_start_mseq_png @ barmaid_end_mseq_png
       @ barmaid_start_mseq_png @ barmaid_end_mseq_png) \<noteq> barmaid_btw_mseq_sof"
    by (simp add: barmaid_btw_mseq_sof_def barmaid_start_mseq_png_def barmaid_end_mseq_png_def)
  have b: "take (length barmaid_btw_mseq_sof) [0x0D, 0x0A, 0x42] \<noteq> barmaid_btw_mseq_sof"
    by (simp add: barmaid_btw_mseq_sof_def)
  from a b parse_btw_rejects_missing_signature [OF a] parse_btw_rejects_missing_signature [OF b]
  show ?thesis by blast
qed

section \<open>The layout parser: running it twice\<close>

text \<open>
  Claim C9 says that running \<^verbatim>\<open>barmaid_parse_btw\<close> twice in succession on the same
  stream yields the same layout. \<^verbatim>\<open>barmaid_is_btw\<close> reads the signature at the
  cursor, not at offset 0, and the first run leaves the cursor behind the compression
  marker: on the example file the first run succeeds and the second run fails.
\<close>

theorem parse_btw_twice_differs:
  "success (fst (barmaid_parse_btw stk (fopen_rb btw_example 3))) \<and>
   fst (barmaid_parse_btw stk' (snd (barmaid_parse_btw stk (fopen_rb btw_example 3))))
     = blobs_init \<and>
   \<not> success (fst (barmaid_parse_btw stk'
       (snd (barmaid_parse_btw stk (fopen_rb btw_example 3)))))"
proof -
  have first: "barmaid_parse_btw stk (fopen_rb btw_example 3) =
     (\<lparr>success = True, prefix_end = 34, png_start = [38, 48], png_end = [40, 49],
        container_zlib = True, container_start = 55, container_end = 57\<rparr>,
      \<lparr>bytes = btw_example, pos = 55, fileno = 3\<rparr>)"
    by (rule btw_example_parse) simp
  have "\<not> fst (barmaid_is_btw (stk' 0) \<lparr>bytes = btw_example, pos = 55, fileno = 3\<rparr>)"
    by (simp add: barmaid_is_btw_def fread_def memcmp_eq_def store_def btw_example_unfold
          barmaid_btw_mseq_sof_def upt_rec_numeral Let_def)
  then have "fst (barmaid_parse_btw stk' \<lparr>bytes = btw_example, pos = 55, fileno = 3\<rparr>)
      = blobs_init"
    by (cases "barmaid_is_btw (stk' 0) \<lparr>bytes = btw_example, pos = 55, fileno = 3\<rparr>")
       (simp add: barmaid_parse_btw_def)
  with first show ?thesis by (simp add: blobs_init_def)
qed

lemma shift_or_byte:
  "push_bit 8 x OR ucast b = x * 256 + (ucast b :: 32 word)" for x :: "32 word" and b :: byte
proof -
  have "push_bit 8 x + (ucast b :: 32 word) = push_bit 8 x OR ucast b"
    by (rule disjunctive_add_eq_or) (auto simp: bit_eq_iff bit_simps dest: bit_imp_le_length)
  then show ?thesis by (simp add: push_bit_eq_mult)
qed

lemma blobsize_loop_sum:
  "blobsize_loop buff bs =
     word_of_int (uint (buff 0) + 256 * uint (buff 1) + 65536 * uint (buff 2)
                  + 16777216 * uint (buff 3))"
proof -
  have "blobsize_loop buff bs =
      (((bs * 256 + ucast (buff 3)) * 256 + ucast (buff 2)) * 256 + ucast (buff 1)) * 256
        + ucast (buff 0)"
    by (simp add: blobsize_loop_def shift_or_byte)
  also have "\<dots> = bs * 4294967296 + ucast (buff 3) * 16777216 + ucast (buff 2) * 65536
        + ucast (buff 1) * 256 + ucast (buff 0)"
    by (simp add: algebra_simps)
  also have "(4294967296 :: 32 word) = 0" by simp
  finally have eq: "blobsize_loop buff bs = ucast (buff 3) * 16777216 + ucast (buff 2) * 65536
        + ucast (buff 1) * 256 + ucast (buff 0)" by simp
  have "word_of_int (uint (buff 0) + 256 * uint (buff 1) + 65536 * uint (buff 2)
                  + 16777216 * uint (buff 3)) =
        (ucast (buff 3) * 16777216 + ucast (buff 2) * 65536
        + ucast (buff 1) * 256 + ucast (buff 0) :: 32 word)"
    by (simp add: algebra_simps)
  with eq show ?thesis by simp
qed

lemma blobsize_loop_le:
  "uint (blobsize_loop buff bs) =
     uint (buff 0) + 256 * uint (buff 1) + 65536 * uint (buff 2) + 16777216 * uint (buff 3)"
proof -
  have b: "0 \<le> uint (buff k)" "uint (buff k) < 256" for k
    using uint_bounded [of "buff k"] by simp_all
  have lo: "0 \<le> uint (buff 0) + 256 * uint (buff 1) + 65536 * uint (buff 2)
                  + 16777216 * uint (buff 3)"
    using b(1) [of 0] b(1) [of 1] b(1) [of 2] b(1) [of 3] by simp
  have hi: "uint (buff 0) + 256 * uint (buff 1) + 65536 * uint (buff 2)
                  + 16777216 * uint (buff 3) < 2 ^ 32"
    using b(2) [of 0] b(2) [of 1] b(2) [of 2] b(2) [of 3] by simp
  show ?thesis
    unfolding blobsize_loop_sum uint_word_of_int using lo hi by simp
qed


lemma parse_btw_pngs_done:
  "2 \<le> i \<Longrightarrow> parse_btw_pngs stk i fil s buff bs b = Inr (s, buff, b, fil)"
  by (subst parse_btw_pngs.simps) simp

lemma parse_btw_pngs_stop:
  assumes "i < 2" "fread 4 (snd (fseek fil s)) = ([], fil2)"
  shows "parse_btw_pngs stk i fil s buff bs b = Inl (b, fil2)"
proof -
  obtain r f where fs: "fseek fil s = (r, f)" by (cases "fseek fil s")
  with assms(2) have "fread 4 f = ([], fil2)" by simp
  with assms(1) fs show ?thesis by (subst parse_btw_pngs.simps) simp
qed

lemma parse_btw_pngs_step:
  assumes "i < 2" "fread 4 (snd (fseek fil s)) = (data, fil2)" "data \<noteq> []"
    and "i < length (png_start b)" "i < length (png_end b)"
    and "barmaid_skip_padding (stk i) fil2
           (s + 4 + uint (blobsize_loop (store buff 0 data) bs)) = (s1, fil3)"
  shows "parse_btw_pngs stk i fil s buff bs b =
           parse_btw_pngs stk (i + 1) fil3 s1 (store buff 0 data)
             (blobsize_loop (store buff 0 data) bs)
             (b\<lparr>png_start := (png_start b)[i := s + 4],
                png_end := (png_end b)[i := s + 4 + uint (blobsize_loop (store buff 0 data) bs)]\<rparr>)"
proof -
  obtain r f where fs: "fseek fil s = (r, f)" by (cases "fseek fil s")
  with assms(2) have rd: "fread 4 f = (data, fil2)" by simp
  with assms(1,3,4,5,6) fs show ?thesis
    by (subst parse_btw_pngs.simps) (simp add: Let_def)
qed

text \<open>What the read of a length field needs: a cursor inside the stream.\<close>

lemma fread_after_fseek:
  assumes "fread 4 (snd (fseek fil s)) = (data, fil2)" "data \<noteq> []"
    and "0 \<le> s \<or> length (bytes fil) \<le> pos fil"
  shows "0 \<le> s" "bytes fil2 = bytes fil" "fileno fil2 = fileno fil"
    "data = take 4 (drop (nat s) (bytes fil))"
proof -
  show s: "0 \<le> s"
  proof (rule ccontr)
    assume "\<not> 0 \<le> s"
    with assms(3) have "snd (fseek fil s) = fil" "length (bytes fil) \<le> pos fil"
      by (auto simp: fseek_def)
    with assms(1,2) show False by (auto simp: fread_def Let_def)
  qed
  then have "snd (fseek fil s) = fil\<lparr>pos := nat s\<rparr>" by (simp add: fseek_def)
  with assms(1) show "bytes fil2 = bytes fil" "fileno fil2 = fileno fil"
    "data = take 4 (drop (nat s) (bytes fil))"
    by (auto simp: fread_def Let_def)
qed

lemma FILE_eqI:
  "bytes f = bytes g \<Longrightarrow> pos f = pos g \<Longrightarrow> fileno f = fileno g \<Longrightarrow> f = g" for f g :: FILE
  by (cases f; cases g) simp

lemma skip_padding_seek_indep:
  assumes "0 \<le> offset" "bytes f = bytes g" "fileno f = fileno g"
  shows "barmaid_skip_padding buff f offset = barmaid_skip_padding buff g offset"
proof -
  have "f\<lparr>pos := nat offset\<rparr> = g\<lparr>pos := nat offset\<rparr>"
    using assms(2,3) by (intro FILE_eqI) auto
  with assms(1) show ?thesis by (simp add: barmaid_skip_padding_def fseek_def)
qed

lemma find_seq_seek_indep:
  assumes "0 \<le> offset" "bytes f = bytes g" "fileno f = fileno g"
  shows "barmaid_find_seq buf f offset seq = barmaid_find_seq buf g offset seq"
proof -
  have "f\<lparr>pos := nat offset\<rparr> = g\<lparr>pos := nat offset\<rparr>"
    using assms(2,3) by (intro FILE_eqI) auto
  with assms(1) show ?thesis by (simp add: barmaid_find_seq_def fseek_def)
qed

lemma parse_btw_pngs_Inr:
  assumes run: "parse_btw_pngs stk 0 fil s buff bs b = Inr (p, buff', b', fil')"
    and entry: "0 \<le> s \<or> length (bytes fil) \<le> pos fil"
    and len: "length (png_start b) = 2" "length (png_end b) = 2"
  shows "0 \<le> s \<and> bytes fil' = bytes fil \<and> fileno fil' = fileno fil \<and>
     png_start b' ! 0 = s + 4 \<and> png_start b' ! 0 \<le> png_end b' ! 0 \<and>
     png_end b' ! 0 \<le> png_start b' ! 1 \<and> png_start b' ! 1 \<le> png_end b' ! 1 \<and>
     ((p = - 1 \<and> length (bytes fil) \<le> pos fil') \<or>
      (p = int (pos fil') \<and> png_end b' ! 1 \<le> p \<and> pos fil' < length (bytes fil))) \<and>
     p = fst (barmaid_skip_padding (stk 1) fil (png_end b' ! 1)) \<and>
     success b' = success b \<and> prefix_end b' = prefix_end b \<and>
     container_zlib b' = container_zlib b \<and> container_start b' = container_start b \<and>
     container_end b' = container_end b"
proof -
  \<comment> \<open>first image\<close>
  obtain d0 f0 where r0: "fread 4 (snd (fseek fil s)) = (d0, f0)"
    by (cases "fread 4 (snd (fseek fil s))")
  have d0: "d0 \<noteq> []"
  proof
    assume "d0 = []"
    with r0 have "parse_btw_pngs stk 0 fil s buff bs b = Inl (b, f0)"
      by (intro parse_btw_pngs_stop) auto
    with run show False by simp
  qed
  note a0 = fread_after_fseek [OF r0 d0 entry]
  define e0 where "e0 = s + 4 + uint (blobsize_loop (store buff 0 d0) bs)"
  have e0: "s + 4 \<le> e0" by (simp add: e0_def)
  obtain s1 f1 where k0: "barmaid_skip_padding (stk 0) f0 e0 = (s1, f1)"
    by (cases "barmaid_skip_padding (stk 0) f0 e0")
  have e0pos: "0 \<le> e0" using e0 a0(1) by simp
  note p0 = skip_padding_facts [OF k0 e0pos]
  define b1 where "b1 = b\<lparr>png_start := (png_start b)[0 := s + 4],
      png_end := (png_end b)[0 := e0]\<rparr>"
  have step0: "parse_btw_pngs stk 0 fil s buff bs b =
      parse_btw_pngs stk 1 f1 s1 (store buff 0 d0) (blobsize_loop (store buff 0 d0) bs) b1"
    using parse_btw_pngs_step [where stk = stk and i = 0 and b = b, OF _ r0 d0 _ _ k0 [unfolded e0_def]] len
    by (simp add: b1_def e0_def)
  \<comment> \<open>second image\<close>
  let ?buff1 = "store buff 0 d0" and ?bs1 = "blobsize_loop (store buff 0 d0) bs"
  obtain d1 f2 where r1: "fread 4 (snd (fseek f1 s1)) = (d1, f2)"
    by (cases "fread 4 (snd (fseek f1 s1))")
  have d1: "d1 \<noteq> []"
  proof
    assume "d1 = []"
    with r1 have "parse_btw_pngs stk 1 f1 s1 ?buff1 ?bs1 b1 = Inl (b1, f2)"
      by (intro parse_btw_pngs_stop) auto
    with run step0 show False by simp
  qed
  have entry1: "0 \<le> s1 \<or> length (bytes f1) \<le> pos f1"
    using p0 by auto
  note a1 = fread_after_fseek [OF r1 d1 entry1]
  have s1: "e0 \<le> s1" using p0 a1(1) by auto
  define e1 where "e1 = s1 + 4 + uint (blobsize_loop (store ?buff1 0 d1) ?bs1)"
  have e1: "s1 + 4 \<le> e1" by (simp add: e1_def)
  obtain s2 f3 where k1: "barmaid_skip_padding (stk 1) f2 e1 = (s2, f3)"
    by (cases "barmaid_skip_padding (stk 1) f2 e1")
  have e1pos: "0 \<le> e1" using e1 a1(1) by simp
  note p1 = skip_padding_facts [OF k1 e1pos]
  define b2 where "b2 = b1\<lparr>png_start := (png_start b1)[1 := s1 + 4],
      png_end := (png_end b1)[1 := e1]\<rparr>"
  have step1: "parse_btw_pngs stk 1 f1 s1 ?buff1 ?bs1 b1 =
      Inr (s2, store ?buff1 0 d1, b2, f3)"
    using parse_btw_pngs_step [where stk = stk and i = 1 and b = b1, OF _ r1 d1 _ _ k1 [unfolded e1_def]] len
    by (simp add: b2_def e1_def b1_def parse_btw_pngs_done)
  from run step0 step1 have res: "p = s2" "b' = b2" "fil' = f3"
    by simp_all
  have same: "bytes f2 = bytes fil" "fileno f2 = fileno fil"
    using a0 a1 p0 by auto
  have indep: "barmaid_skip_padding (stk 1) fil e1 = barmaid_skip_padding (stk 1) f2 e1"
    using same e1pos by (intro skip_padding_seek_indep) auto
  have fields: "png_start b2 = [s + 4, s1 + 4]" "png_end b2 = [e0, e1]"
    using len by (cases "png_start b"; cases "png_end b"; 
       cases "tl (png_start b)"; cases "tl (png_end b)"; simp add: b2_def b1_def)+
  show ?thesis
    unfolding res using a0(1) same p1 fields e0 e1 s1 indep k1
    by (auto simp: b2_def b1_def)
qed

lemma parse_btw_pngs_success:
  "success (pngs_blobs (parse_btw_pngs stk i fil s buff bs b)) = success b"
proof (induction stk i fil s buff bs b rule: parse_btw_pngs.induct)
  case (1 stk i fil s buff bs b)
  show ?case
  proof (cases "i < 2")
    case False
    then show ?thesis by (simp add: parse_btw_pngs_done pngs_blobs_def)
  next
    case i: True
    obtain r f where fs: "fseek fil s = (r, f)" by (cases "fseek fil s")
    obtain d f2 where rd: "fread 4 f = (d, f2)" by (cases "fread 4 f")
    show ?thesis
    proof (cases "d = []")
      case True
      with parse_btw_pngs_stop [OF i, of fil s f2] rd fs show ?thesis
        by (simp add: pngs_blobs_def)
    next
      case False
      then show ?thesis
        using "1.IH" i fs rd
        by (auto simp: parse_btw_pngs.simps [of stk i fil s buff bs b] Let_def
              split: prod.splits)
    qed
  qed
qed

lemma parse_btw_container_success:
  assumes "parse_btw_container f p buff b2 = (b, f')" "success b" "\<not> container_zlib b2"
    "\<not> success b2"
  shows "pos f + 2 \<le> length (bytes f)" "container_end b = int (length (bytes f))"
    "container_zlib b \<longleftrightarrow> take 2 (drop (pos f) (bytes f)) = barmaid_btw_zlib"
    "container_start b = p + (if container_zlib b then 2 else 0)"
    "prefix_end b = prefix_end b2" "png_start b = png_start b2" "png_end b = png_end b2"
proof -
  obtain d f1 where rd: "fread 2 f = (d, f1)" by (cases "fread 2 f")
  note fr = fread_facts [OF rd]
  have d2: "length d = 2"
    using assms(1,2,4) rd by (auto simp: parse_btw_container_def Let_def split: if_splits)
  have m: "memcmp_eq (store buff 0 d) 0 barmaid_btw_zlib \<longleftrightarrow> d = barmaid_btw_zlib"
    using memcmp_store [of 0 barmaid_btw_zlib d buff 0] d2 by (simp add: mseq_lengths)
  from d2 fr(4) show "pos f + 2 \<le> length (bytes f)" by auto
  from assms rd d2 m fr(1,4)
  show "container_end b = int (length (bytes f))"
    "container_zlib b \<longleftrightarrow> take 2 (drop (pos f) (bytes f)) = barmaid_btw_zlib"
    "container_start b = p + (if container_zlib b then 2 else 0)"
    "prefix_end b = prefix_end b2" "png_start b = png_start b2" "png_end b = png_end b2"
    by (auto simp: parse_btw_container_def Let_def mseq_lengths split: if_splits)
qed

text \<open>
  A successful run of \<^verbatim>\<open>barmaid_parse_btw\<close>, taken apart: the signature matched, the
  marker was found, the image loop ran through, and the container step succeeded at
  the cursor the last padding skip left.
\<close>

lemma parse_btw_success_cases:
  assumes run: "barmaid_parse_btw stk fil = (b, fil')" and ok: "success b"
  obtains fil1 found fil2 s fil3 p buff b2 fil4 where
    "barmaid_is_btw (stk 0) fil = (True, fil1)"
    "barmaid_find_seq (stk 1) fil1 (int (length barmaid_btw_mseq_sof)) barmaid_btw_end_of_meta
       = (found, fil2)" "0 \<le> found"
    "barmaid_skip_padding (stk 2) fil2 (found + int (length barmaid_btw_end_of_meta)) = (s, fil3)"
    "parse_btw_pngs (\<lambda>i. stk (4 + i)) 0 fil3 s (stk 3) 0 (blobs_init\<lparr>prefix_end := s\<rparr>)
       = Inr (p, buff, b2, fil4)"
    "parse_btw_container fil4 p buff b2 = (b, fil')"
proof -
  have ninit: "\<not> success blobs_init" by (simp add: blobs_init_def)
  obtain y fil1 where ib: "barmaid_is_btw (stk 0) fil = (y, fil1)"
    by (cases "barmaid_is_btw (stk 0) fil")
  have y: y
  proof (rule ccontr)
    assume "\<not> y"
    with run ib have "b = blobs_init" by (simp add: barmaid_parse_btw_def)
    with ok ninit show False by simp
  qed
  obtain found fil2 where fs: "barmaid_find_seq (stk 1) fil1
      (int (length barmaid_btw_mseq_sof)) barmaid_btw_end_of_meta = (found, fil2)"
    by (cases "barmaid_find_seq (stk 1) fil1
      (int (length barmaid_btw_mseq_sof)) barmaid_btw_end_of_meta")
  have found: "0 \<le> found"
  proof (rule ccontr)
    assume "\<not> 0 \<le> found"
    with run ib y fs have "b = blobs_init" by (simp add: barmaid_parse_btw_def)
    with ok ninit show False by simp
  qed
  obtain s fil3 where sk: "barmaid_skip_padding (stk 2) fil2
      (found + int (length barmaid_btw_end_of_meta)) = (s, fil3)"
    by (cases "barmaid_skip_padding (stk 2) fil2
      (found + int (length barmaid_btw_end_of_meta))")
  let ?b1 = "blobs_init\<lparr>prefix_end := s\<rparr>"
  let ?loop = "parse_btw_pngs (\<lambda>i. stk (4 + i)) 0 fil3 s (stk 3) 0 ?b1"
  from run ib y fs found sk
  have res: "(case ?loop of Inl r \<Rightarrow> r
      | Inr (start1, buff, b2, fil4) \<Rightarrow> parse_btw_container fil4 start1 buff b2) = (b, fil')"
    by (simp add: barmaid_parse_btw_def Let_def)
  show thesis
  proof (cases ?loop)
    case (Inl r)
    with res have "r = (b, fil')" by simp
    with parse_btw_pngs_success [where stk = "\<lambda>i. stk (4 + i)" and i = 0 and fil = fil3
        and s = s and buff = "stk 3" and bs = 0 and b = ?b1] Inl ok ninit
    show thesis by (simp add: pngs_blobs_def)
  next
    case (Inr t)
    obtain p buff b2 fil4 where t: "t = (p, buff, b2, fil4)" by (cases t)
    with res Inr have "parse_btw_container fil4 p buff b2 = (b, fil')" by simp
    with ib y fs found sk Inr t show thesis by (intro that) auto
  qed
qed

section \<open>The layout parser: ordering of the offsets\<close>

text \<open>
  Claim C3: in every layout that \<^verbatim>\<open>barmaid_parse_btw\<close> returns with
  \<open>success = true\<close> the offsets are non-negative and ordered,
  \<open>0 \<le> prefix_end \<le> png_start[0] \<le> png_end[0] \<le> png_start[1] \<le> png_end[1]
  \<le> container_start \<le> container_end\<close>, and \<open>container_end\<close> is the number of bytes
  of the stream. The return values of the padding skips are never checked by the
  parser; a failed skip leaves the cursor at the end of the stream, so that the next
  read delivers nothing and the parse fails there.
\<close>

theorem parse_btw_layout_ordered:
  assumes "barmaid_parse_btw stk fil = (b, fil')" and "success b"
  shows "0 \<le> prefix_end b \<and> prefix_end b \<le> png_start b ! 0 \<and>
         png_start b ! 0 \<le> png_end b ! 0 \<and> png_end b ! 0 \<le> png_start b ! 1 \<and>
         png_start b ! 1 \<le> png_end b ! 1 \<and> png_end b ! 1 \<le> container_start b \<and>
         container_start b \<le> container_end b \<and>
         container_end b = int (length (bytes fil))"
proof -
  from assms obtain fil1 found fil2 s fil3 p buff b2 fil4 where
    ib: "barmaid_is_btw (stk 0) fil = (True, fil1)" and
    fs: "barmaid_find_seq (stk 1) fil1 (int (length barmaid_btw_mseq_sof))
           barmaid_btw_end_of_meta = (found, fil2)" and
    found: "0 \<le> found" and
    sk: "barmaid_skip_padding (stk 2) fil2 (found + int (length barmaid_btw_end_of_meta))
           = (s, fil3)" and
    loop: "parse_btw_pngs (\<lambda>i. stk (4 + i)) 0 fil3 s (stk 3) 0 (blobs_init\<lparr>prefix_end := s\<rparr>)
           = Inr (p, buff, b2, fil4)" and
    cont: "parse_btw_container fil4 p buff b2 = (b, fil')"
    by (rule parse_btw_success_cases)
  have f1: "bytes fil1 = bytes fil"
    using ib by (auto simp: barmaid_is_btw_def fread_def Let_def)
  have f2: "bytes fil2 = bytes fil1"
    using find_seq_facts [OF fs] by simp
  have off: "0 \<le> found + int (length barmaid_btw_end_of_meta)" using found by simp
  note k = skip_padding_facts [OF sk off]
  have entry: "0 \<le> s \<or> length (bytes fil3) \<le> pos fil3" using k by auto
  have "length (png_start (blobs_init\<lparr>prefix_end := s\<rparr>)) = 2"
    "length (png_end (blobs_init\<lparr>prefix_end := s\<rparr>)) = 2"
    by (simp_all add: blobs_init_def)
  note l = parse_btw_pngs_Inr [OF loop entry this]
  have b2: "\<not> container_zlib b2" "\<not> success b2" "prefix_end b2 = s"
    using l by (simp_all add: blobs_init_def)
  note c = parse_btw_container_success [OF cont assms(2) b2(1,2)]
  have bytes4: "bytes fil4 = bytes fil" using l k f1 f2 by simp
  have p: "p = int (pos fil4)" "png_end b2 ! 1 \<le> p"
    using l c(1) by auto
  have "container_start b \<le> p + 2" "p \<le> container_start b" using c(4) by auto
  with c l p b2 bytes4 show ?thesis by auto
qed

theorem parse_btw_layout_ordered_witness:
  "barmaid_parse_btw (\<lambda>_ _. 0) (fopen_rb btw_example 3) =
     (\<lparr>success = True, prefix_end = 34, png_start = [38, 48], png_end = [40, 49],
        container_zlib = True, container_start = 55, container_end = 57\<rparr>,
      \<lparr>bytes = btw_example, pos = 55, fileno = 3\<rparr>) \<and>
   (0::int) \<le> 34 \<and> (34::int) \<le> [38, 48] ! 0 \<and> [38, 48] ! 0 \<le> [40, 49::int] ! 0 \<and>
   [40, 49] ! 0 \<le> [38, 48::int] ! 1 \<and> [38, 48] ! 1 \<le> [40, 49::int] ! 1 \<and>
   [40, 49::int] ! 1 \<le> 55 \<and> (55::int) \<le> 57 \<and>
   (57::int) = int (length (bytes (fopen_rb btw_example 3)))"
proof -
  let ?b = "\<lparr>success = True, prefix_end = 34, png_start = [38, 48], png_end = [40, 49],
        container_zlib = True, container_start = 55, container_end = 57\<rparr>"
  have run: "barmaid_parse_btw (\<lambda>_ _. 0) (fopen_rb btw_example 3) =
     (?b, \<lparr>bytes = btw_example, pos = 55, fileno = 3\<rparr>)"
    by (rule btw_example_parse) simp
  have ok: "success ?b" by simp
  from parse_btw_layout_ordered [OF run ok] run show ?thesis by simp
qed

section \<open>The layout parser: the length fields\<close>

lemma parse_btw_pngs_keeps:
  "k < i \<Longrightarrow>
   png_start (pngs_blobs (parse_btw_pngs stk i fil s buff bs b)) ! k = png_start b ! k \<and>
   png_end (pngs_blobs (parse_btw_pngs stk i fil s buff bs b)) ! k = png_end b ! k"
proof (induction stk i fil s buff bs b rule: parse_btw_pngs.induct)
  case (1 stk i fil s buff bs b)
  show ?case
  proof (cases "i < 2")
    case False
    then show ?thesis by (simp add: parse_btw_pngs_done pngs_blobs_def)
  next
    case i: True
    obtain r f where fs: "fseek fil s = (r, f)" by (cases "fseek fil s")
    obtain d f2 where rd: "fread 4 f = (d, f2)" by (cases "fread 4 f")
    show ?thesis
    proof (cases "d = []")
      case True
      with parse_btw_pngs_stop [OF i, of fil s f2] rd fs show ?thesis
        by (simp add: pngs_blobs_def)
    next
      case False
      have "k \<noteq> i" "k < Suc i" using "1.prems" by simp_all
      then show ?thesis
        using "1.IH" i fs rd False
        by (auto simp: parse_btw_pngs.simps [of stk i fil s buff bs b] Let_def
              split: prod.splits)
    qed
  qed
qed

text \<open>
  Claim C4: in each of the two image iterations the 4 bytes read at the current
  position are decoded as an unsigned little-endian 32-bit length, byte 0 giving the
  low 8 bits (\<open>02 00 00 00\<close> is 2, \<open>00 01 00 00\<close> is 256), and the image's range is
  \<open>[position + 4, position + 4 + length)\<close>. The accumulator \<open>blobsize\<close> is not reset
  between the images; the four shifts push its old value out. The theorem is about an
  iteration whose four bytes can be read.
\<close>

theorem png_section_length_little_endian:
  assumes "i < 2" and "0 \<le> position"
    and "take 4 (drop (nat position) (bytes fil)) = [b0, b1, b2, b3]"
    and "length (png_start b) = 2" and "length (png_end b) = 2"
  shows "uint (blobsize_loop (store buff 0 [b0, b1, b2, b3]) blobsize)
           = uint b0 + 256 * uint b1 + 65536 * uint b2 + 16777216 * uint b3 \<and>
         png_start (pngs_blobs (parse_btw_pngs stk i fil position buff blobsize b)) ! i
           = position + 4 \<and>
         png_end (pngs_blobs (parse_btw_pngs stk i fil position buff blobsize b)) ! i
           = position + 4 + (uint b0 + 256 * uint b1 + 65536 * uint b2 + 16777216 * uint b3) \<and>
         uint (blobsize_loop (store buff 0 [0x02, 0x00, 0x00, 0x00]) blobsize) = 2 \<and>
         uint (blobsize_loop (store buff 0 [0x00, 0x01, 0x00, 0x00]) blobsize) = 256"
proof -
  let ?data = "[b0, b1, b2, b3]"
  let ?len = "uint b0 + 256 * uint b1 + 65536 * uint b2 + 16777216 * uint b3"
  have dec: "uint (blobsize_loop (store buff 0 [c0, c1, c2, c3]) blobsize)
      = uint c0 + 256 * uint c1 + 65536 * uint c2 + 16777216 * uint c3" for c0 c1 c2 c3
    by (simp add: blobsize_loop_le store_def)
  obtain f2 where rd: "fread 4 (snd (fseek fil position)) = (?data, f2)"
    using assms(2,3) by (simp add: fseek_def fread_def Let_def)
  obtain s1 f3 where sk: "barmaid_skip_padding (stk i) f2
      (position + 4 + uint (blobsize_loop (store buff 0 ?data) blobsize)) = (s1, f3)"
    by (cases "barmaid_skip_padding (stk i) f2
      (position + 4 + uint (blobsize_loop (store buff 0 ?data) blobsize))")
  define b' where "b' = b\<lparr>png_start := (png_start b)[i := position + 4],
      png_end := (png_end b)[i := position + 4
         + uint (blobsize_loop (store buff 0 ?data) blobsize)]\<rparr>"
  have step: "parse_btw_pngs stk i fil position buff blobsize b =
      parse_btw_pngs stk (i + 1) f3 s1 (store buff 0 ?data)
        (blobsize_loop (store buff 0 ?data) blobsize) b'"
    unfolding b'_def using assms(1,4,5)
    by (intro parse_btw_pngs_step [where stk = stk and i = i, OF _ rd _ _ _ sk]) auto
  have "i < i + 1" by simp
  from parse_btw_pngs_keeps [OF this, of stk f3 s1 "store buff 0 ?data"
      "blobsize_loop (store buff 0 ?data) blobsize" b'] assms(1,4,5)
  have "png_start (pngs_blobs (parse_btw_pngs stk i fil position buff blobsize b)) ! i
          = position + 4"
    "png_end (pngs_blobs (parse_btw_pngs stk i fil position buff blobsize b)) ! i
          = position + 4 + uint (blobsize_loop (store buff 0 ?data) blobsize)"
    unfolding step by (simp_all add: b'_def)
  with dec [of b0 b1 b2 b3] dec [of 2 0 0 0] dec [of 0 1 0 0] show ?thesis by simp
qed

theorem png_section_length_little_endian_witness:
  "(0::nat) < 2 \<and> (0::int) \<le> 34 \<and>
   take 4 (drop (nat 34) (bytes (fopen_rb btw_example 3))) = [0x02, 0x00, 0x00, 0x00] \<and>
   length (png_start blobs_init) = 2 \<and> length (png_end blobs_init) = 2 \<and>
   png_start (pngs_blobs (parse_btw_pngs (\<lambda>_ _. 0) 0 (fopen_rb btw_example 3) 34 (\<lambda>_. 0) 0
     blobs_init)) ! 0 = 38 \<and>
   png_end (pngs_blobs (parse_btw_pngs (\<lambda>_ _. 0) 0 (fopen_rb btw_example 3) 34 (\<lambda>_. 0) 0
     blobs_init)) ! 0 = 40"
proof -
  have h: "(0::nat) < 2" "(0::int) \<le> 34"
    "take 4 (drop (nat 34) (bytes (fopen_rb btw_example 3))) = [0x02, 0x00, 0x00, 0x00]"
    "length (png_start blobs_init) = 2" "length (png_end blobs_init) = 2"
    by (simp_all add: fopen_rb_def btw_example_unfold blobs_init_def)
  from png_section_length_little_endian [OF h, of "\<lambda>_. 0" 0 "\<lambda>_ _. 0"] h
  show ?thesis by simp
qed

lemma parse_btw_container_branches:
  assumes "\<not> container_zlib b2" "\<not> success b2"
  shows "(take 2 (drop (pos f) (bytes f)) = barmaid_btw_zlib \<longrightarrow>
            container_zlib (fst (parse_btw_container f p buff b2)) \<and>
            container_start (fst (parse_btw_container f p buff b2)) = p + 2) \<and>
         (pos f + 2 \<le> length (bytes f) \<and> take 2 (drop (pos f) (bytes f)) \<noteq> barmaid_btw_zlib \<longrightarrow>
            \<not> container_zlib (fst (parse_btw_container f p buff b2)) \<and>
            container_start (fst (parse_btw_container f p buff b2)) = p) \<and>
         (length (bytes f) < pos f + 2 \<longrightarrow>
            \<not> success (fst (parse_btw_container f p buff b2)))"
proof -
  obtain d f1 where rd: "fread 2 f = (d, f1)" by (cases "fread 2 f")
  note fr = fread_facts [OF rd]
  have m: "memcmp_eq (store buff 0 d) 0 barmaid_btw_zlib \<longleftrightarrow> d = barmaid_btw_zlib"
    if "length d = 2"
    using memcmp_store [of 0 barmaid_btw_zlib d buff 0] that by (simp add: mseq_lengths)
  have len: "length d = min 2 (length (bytes f) - pos f)" using fr(4) by simp
  have a: "container_zlib (fst (parse_btw_container f p buff b2)) \<and>
      container_start (fst (parse_btw_container f p buff b2)) = p + 2"
    if "d = barmaid_btw_zlib"
  proof -
    from that have "length d = 2" by (simp add: mseq_lengths)
    with m that rd show ?thesis
      by (simp add: parse_btw_container_def Let_def mseq_lengths)
  qed
  have b: "\<not> container_zlib (fst (parse_btw_container f p buff b2)) \<and>
      container_start (fst (parse_btw_container f p buff b2)) = p"
    if "length d = 2" "d \<noteq> barmaid_btw_zlib"
    using that m rd assms(1) by (simp add: parse_btw_container_def Let_def)
  have c: "\<not> success (fst (parse_btw_container f p buff b2))" if "length d \<noteq> 2"
    using that rd assms(2) by (simp add: parse_btw_container_def Let_def)
  show ?thesis using a b c len fr(4) by auto
qed

lemma parse_btw_reaches_container:
  assumes "barmaid_is_btw (stk 0) fil = (True, fil1)"
    and "barmaid_find_seq (stk 1) fil1 (int (length barmaid_btw_mseq_sof))
           barmaid_btw_end_of_meta = (found, fil2)" and "0 \<le> found"
    and "barmaid_skip_padding (stk 2) fil2 (found + int (length barmaid_btw_end_of_meta))
           = (s, fil3)"
    and "parse_btw_pngs (\<lambda>i. stk (4 + i)) 0 fil3 s (stk 3) 0 (blobs_init\<lparr>prefix_end := s\<rparr>)
           = Inr (p, buff, b2, fil4)"
  shows "barmaid_parse_btw stk fil = parse_btw_container fil4 p buff b2"
    and "bytes fil4 = bytes fil" and "\<not> container_zlib b2" and "\<not> success b2"
    and "(p = - 1 \<and> length (bytes fil) \<le> pos fil4) \<or>
         (p = int (pos fil4) \<and> pos fil4 < length (bytes fil))"
    and "p = fst (barmaid_skip_padding (stk 5) fil (png_end b2 ! 1))"
proof -
  show "barmaid_parse_btw stk fil = parse_btw_container fil4 p buff b2"
    using assms by (simp add: barmaid_parse_btw_def Let_def)
  have f1: "bytes fil1 = bytes fil" "fileno fil1 = fileno fil"
    using assms(1) by (auto simp: barmaid_is_btw_def fread_def Let_def)
  have f2: "bytes fil2 = bytes fil1" "fileno fil2 = fileno fil1"
    using find_seq_facts [OF assms(2)] by simp_all
  have off: "0 \<le> found + int (length barmaid_btw_end_of_meta)" using assms(3) by simp
  note k = skip_padding_facts [OF assms(4) off]
  have entry: "0 \<le> s \<or> length (bytes fil3) \<le> pos fil3" using k by auto
  have "length (png_start (blobs_init\<lparr>prefix_end := s\<rparr>)) = 2"
    "length (png_end (blobs_init\<lparr>prefix_end := s\<rparr>)) = 2"
    by (simp_all add: blobs_init_def)
  note l = parse_btw_pngs_Inr [OF assms(5) entry this]
  show "bytes fil4 = bytes fil" using l k f1 f2 by simp
  show "\<not> container_zlib b2" "\<not> success b2" using l by (simp_all add: blobs_init_def)
  show "(p = - 1 \<and> length (bytes fil) \<le> pos fil4) \<or>
         (p = int (pos fil4) \<and> pos fil4 < length (bytes fil))"
    using l k f1 f2 by auto
  have e: "0 \<le> png_end b2 ! 1" using l by auto
  have "barmaid_skip_padding (stk 5) fil (png_end b2 ! 1)
      = barmaid_skip_padding (stk 5) fil3 (png_end b2 ! 1)"
    using e k f1 f2 by (intro skip_padding_seek_indep) auto
  moreover have "stk (4 + 1) = stk 5" by simp
  ultimately show "p = fst (barmaid_skip_padding (stk 5) fil (png_end b2 ! 1))"
    using l by simp
qed

section \<open>The layout parser: container detection\<close>

text \<open>
  Claim C5: when the parser has run through the two image sections and stands at the
  position \<open>p\<close> behind the padding, it peeks at 2 bytes. If they are the compression
  marker \<open>00 01\<close>, \<open>container_zlib\<close> is set and \<open>container_start\<close> is \<open>p + 2\<close>; if
  2 bytes are there and differ from the marker, \<open>container_zlib\<close> stays false and
  \<open>container_start\<close> is \<open>p\<close>; if fewer than 2 bytes are there (also when the padding
  skip found no word at all and returned \<open>-1\<close>), the parse fails. The premises say that
  the parser reaches this step; \<open>p\<close> is what the padding skip behind the second image
  returned.
\<close>

theorem parse_btw_container_detection:
  assumes "barmaid_is_btw (stk 0) fil = (True, fil1)"
    and "barmaid_find_seq (stk 1) fil1 (int (length barmaid_btw_mseq_sof))
           barmaid_btw_end_of_meta = (found, fil2)" and "0 \<le> found"
    and "barmaid_skip_padding (stk 2) fil2 (found + int (length barmaid_btw_end_of_meta))
           = (s, fil3)"
    and "parse_btw_pngs (\<lambda>i. stk (4 + i)) 0 fil3 s (stk 3) 0 (blobs_init\<lparr>prefix_end := s\<rparr>)
           = Inr (p, buff, b2, fil4)"
  shows "p = fst (barmaid_skip_padding (stk 5) fil (png_end b2 ! 1)) \<and>
         (0 \<le> p \<and> take 2 (drop (nat p) (bytes fil)) = barmaid_btw_zlib \<longrightarrow>
            container_zlib (fst (barmaid_parse_btw stk fil)) \<and>
            container_start (fst (barmaid_parse_btw stk fil)) = p + 2) \<and>
         (0 \<le> p \<and> nat p + 2 \<le> length (bytes fil) \<and>
          take 2 (drop (nat p) (bytes fil)) \<noteq> barmaid_btw_zlib \<longrightarrow>
            \<not> container_zlib (fst (barmaid_parse_btw stk fil)) \<and>
            container_start (fst (barmaid_parse_btw stk fil)) = p) \<and>
         (p < 0 \<or> length (bytes fil) < nat p + 2 \<longrightarrow>
            \<not> success (fst (barmaid_parse_btw stk fil)))"
proof -
  note r = parse_btw_reaches_container [OF assms]
  note c = parse_btw_container_branches [OF r(3,4), of fil4 p buff]
  have pos: "nat p = pos fil4" if "0 \<le> p" using r(5) that by auto
  have short: "length (bytes fil4) < pos fil4 + 2" if "p < 0" using r(5) r(2) that by auto
  show ?thesis
    unfolding r(1) using r(6) c pos short r(2) r(5) by auto
qed

lemma btw_head_unfold:
  "btw_head @ tail = 0x0D # 0x0A # 0x42 # 0x61 # 0x72 # 0x20 # 0x54 # 0x65 # 0x6E # 0x64 #
      0x65 # 0x72 # 0x20 # 0x46 # 0x6F # 0x72 # 0x6D # 0x61 # 0x74 # 0x20 # 0x46 # 0x69 #
      0x6C # 0x65 # 0x0D # 0x0A # 0xFF # 0xFE # 0xFF # 0x00 # 0x00 # 0x00 # 0x00 # 0x00 #
      0x02 # 0x00 # 0x00 # 0x00 # 0xAA # 0xBB # 0x00 # 0x00 # 0x00 # 0x00 #
      0x01 # 0x00 # 0x00 # 0x00 # 0xCC # 0x00 # 0x00 # 0x00 # 0x00 # tail"
  by (simp add: btw_head_def barmaid_btw_mseq_sof_def barmaid_btw_end_of_meta_def)

lemma btw_head_reaches:
  fixes tail :: "byte list" and fd :: int and stk :: "nat \<Rightarrow> mem"
  defines "f \<equiv> \<lambda>n. \<lparr>bytes = btw_head @ tail, pos = n, fileno = fd\<rparr>"
  assumes last: "barmaid_skip_padding (stk 5) (f 48) 49 = (p, f4)"
  shows "barmaid_is_btw (stk 0) (fopen_rb (btw_head @ tail) fd) = (True, f 26)"
    and "barmaid_find_seq (stk 1) (f 26) (int (length barmaid_btw_mseq_sof))
           barmaid_btw_end_of_meta = (26, f 26)"
    and "barmaid_skip_padding (stk 2) (f 26) (26 + int (length barmaid_btw_end_of_meta))
           = (34, f 34)"
    and "parse_btw_pngs (\<lambda>i. stk (4 + i)) 0 (f 34) 34 (stk 3) 0 (blobs_init\<lparr>prefix_end := 34\<rparr>)
           = Inr (p, store (store (stk 3) 0 [0x02, 0x00, 0x00, 0x00]) 0 [0x01, 0x00, 0x00, 0x00],
                  blobs_init\<lparr>prefix_end := 34, png_start := [38, 48], png_end := [40, 49]\<rparr>,
                  f4)"
proof -
  show "barmaid_is_btw (stk 0) (fopen_rb (btw_head @ tail) fd) = (True, f 26)"
    by (simp add: barmaid_is_btw_def fopen_rb_def fread_def memcmp_eq_def store_def f_def
          btw_head_unfold barmaid_btw_mseq_sof_def upt_rec_numeral Let_def)
  have "barmaid_find_seq (stk 1) (f 26) 26 barmaid_btw_end_of_meta
        = (int 26, (f 26)\<lparr>pos := 26\<rparr>)"
    by (rule find_seq_first_chunk)
       (simp_all add: f_def btw_head_unfold barmaid_btw_end_of_meta_def BUFF_SIZ_def)
  then show "barmaid_find_seq (stk 1) (f 26) (int (length barmaid_btw_mseq_sof))
           barmaid_btw_end_of_meta = (26, f 26)"
    by (simp add: f_def mseq_lengths)
  show "barmaid_skip_padding (stk 2) (f 26) (26 + int (length barmaid_btw_end_of_meta))
           = (34, f 34)"
    by (simp add: barmaid_skip_padding_def skip_padding_loop.simps fseek_def fread_def
          ftell_def store_def f_def btw_head_unfold mseq_lengths Let_def)
  have sk: "barmaid_skip_padding buff (f n) 40 = (44, f 44)" for buff n
    by (simp add: barmaid_skip_padding_def skip_padding_loop.simps fseek_def fread_def
          ftell_def store_def f_def btw_head_unfold Let_def)
  have rd: "fread 4 (f 34) = ([0x02, 0x00, 0x00, 0x00], f 38)"
    "fread 4 (f 44) = ([0x01, 0x00, 0x00, 0x00], f 48)"
    by (simp_all add: fread_def f_def btw_head_unfold Let_def)
  have sek: "fseek (f n) 34 = (0, f 34)" "fseek (f n) 44 = (0, f 44)" for n
    by (simp_all add: fseek_def f_def)
  show "parse_btw_pngs (\<lambda>i. stk (4 + i)) 0 (f 34) 34 (stk 3) 0 (blobs_init\<lparr>prefix_end := 34\<rparr>)
           = Inr (p, store (store (stk 3) 0 [0x02, 0x00, 0x00, 0x00]) 0 [0x01, 0x00, 0x00, 0x00],
                  blobs_init\<lparr>prefix_end := 34, png_start := [38, 48], png_end := [40, 49]\<rparr>,
                  f4)"
    apply (subst parse_btw_pngs.simps)
    apply (simp add: sek rd blobsize_loop_def store_def sk blobs_init_def Let_def)
    apply (subst parse_btw_pngs.simps)
    apply (simp add: sek rd blobsize_loop_def store_def last blobs_init_def Let_def)
    apply (subst parse_btw_pngs.simps)
    apply (simp add: store_def)
    done
qed

lemma btw_head_last_skip:
  assumes "tail = [0x00, 0x01, 0x78, 0x9C] \<or> tail = [0x78, 0x9C, 0x01, 0x02] \<or> tail = [0xAB]"
  shows "barmaid_skip_padding buff \<lparr>bytes = btw_head @ tail, pos = n, fileno = fd\<rparr> 49
           = (53, \<lparr>bytes = btw_head @ tail, pos = 53, fileno = fd\<rparr>)"
proof -
  have "barmaid_skip_padding buff \<lparr>bytes = btw_head @ t, pos = n, fileno = fd\<rparr> 49
           = (53, \<lparr>bytes = btw_head @ t, pos = 53, fileno = fd\<rparr>)"
    if "t = [0x00, 0x01, 0x78, 0x9C]" for t
    unfolding that
    by (simp add: barmaid_skip_padding_def skip_padding_loop.simps fseek_def fread_def
        ftell_def store_def btw_head_unfold Let_def)
  moreover have "barmaid_skip_padding buff \<lparr>bytes = btw_head @ t, pos = n, fileno = fd\<rparr> 49
           = (53, \<lparr>bytes = btw_head @ t, pos = 53, fileno = fd\<rparr>)"
    if "t = [0x78, 0x9C, 0x01, 0x02]" for t
    unfolding that
    by (simp add: barmaid_skip_padding_def skip_padding_loop.simps fseek_def fread_def
        ftell_def store_def btw_head_unfold Let_def)
  moreover have "barmaid_skip_padding buff \<lparr>bytes = btw_head @ t, pos = n, fileno = fd\<rparr> 49
           = (53, \<lparr>bytes = btw_head @ t, pos = 53, fileno = fd\<rparr>)"
    if "t = [0xAB]" for t
    unfolding that
    by (simp add: barmaid_skip_padding_def skip_padding_loop.simps fseek_def fread_def
        ftell_def store_def btw_head_unfold Let_def)
  ultimately show ?thesis using assms by blast
qed

theorem parse_btw_container_detection_witness:
  "(take 2 (drop 53 btw_example) = barmaid_btw_zlib \<and>
    container_zlib (fst (barmaid_parse_btw (\<lambda>_ _. 0) (fopen_rb btw_example 3))) \<and>
    container_start (fst (barmaid_parse_btw (\<lambda>_ _. 0) (fopen_rb btw_example 3))) = 55) \<and>
   (53 + 2 \<le> length btw_plain \<and> take 2 (drop 53 btw_plain) \<noteq> barmaid_btw_zlib \<and>
    \<not> container_zlib (fst (barmaid_parse_btw (\<lambda>_ _. 0) (fopen_rb btw_plain 3))) \<and>
    container_start (fst (barmaid_parse_btw (\<lambda>_ _. 0) (fopen_rb btw_plain 3))) = 53) \<and>
   (length btw_cut < 53 + 2 \<and>
    \<not> success (fst (barmaid_parse_btw (\<lambda>_ _. 0) (fopen_rb btw_cut 3))))"
proof -
  let ?stk = "\<lambda>_ _. 0 :: byte"
  have found: "(0::int) \<le> 26" by simp
  have gen: "(take 2 (drop 53 (btw_head @ tail)) = barmaid_btw_zlib \<longrightarrow>
        container_zlib (fst (barmaid_parse_btw ?stk (fopen_rb (btw_head @ tail) 3))) \<and>
        container_start (fst (barmaid_parse_btw ?stk (fopen_rb (btw_head @ tail) 3))) = 55) \<and>
      (53 + 2 \<le> length (btw_head @ tail) \<and>
       take 2 (drop 53 (btw_head @ tail)) \<noteq> barmaid_btw_zlib \<longrightarrow>
        \<not> container_zlib (fst (barmaid_parse_btw ?stk (fopen_rb (btw_head @ tail) 3))) \<and>
        container_start (fst (barmaid_parse_btw ?stk (fopen_rb (btw_head @ tail) 3))) = 53) \<and>
      (length (btw_head @ tail) < 53 + 2 \<longrightarrow>
        \<not> success (fst (barmaid_parse_btw ?stk (fopen_rb (btw_head @ tail) 3))))"
    if t: "tail = [0x00, 0x01, 0x78, 0x9C] \<or> tail = [0x78, 0x9C, 0x01, 0x02] \<or> tail = [0xAB]"
    for tail
  proof -
    note h = btw_head_reaches [where stk = ?stk, OF btw_head_last_skip [OF t, of "?stk 5" 48 3]]
    from parse_btw_container_detection [OF h(1) h(2) found h(3) h(4)]
    show ?thesis by (simp add: fopen_rb_def)
  qed
  have vals: "take 2 (drop 53 btw_example) = barmaid_btw_zlib"
    "53 + 2 \<le> length btw_plain" "take 2 (drop 53 btw_plain) \<noteq> barmaid_btw_zlib"
    "length btw_cut < 53 + 2"
    by (simp_all add: btw_example_def btw_plain_def btw_cut_def btw_head_unfold
          barmaid_btw_zlib_def)
  from gen [of "[0x00, 0x01, 0x78, 0x9C]"] gen [of "[0x78, 0x9C, 0x01, 0x02]"] gen [of "[0xAB]"]
    vals
  show ?thesis by (simp add: btw_example_def btw_plain_def btw_cut_def)
qed

section \<open>The heuristic scanner\<close>

lemma heuristic_png_loop_done:
  "2 \<le> i \<Longrightarrow> heuristic_png_loop stk i fil offset b = (b\<lparr>success := True\<rparr>, fil)"
  by (subst heuristic_png_loop.simps) simp

lemma heuristic_png_loop_no_start:
  assumes "i < 2" "i < length (png_start b)"
    and "barmaid_find_seq (stk (2 * i)) fil offset barmaid_start_mseq_png = (s, fil1)" "s < 0"
  shows "heuristic_png_loop stk i fil offset b = (b\<lparr>png_start := (png_start b)[i := s]\<rparr>, fil1)"
  using assms by (subst heuristic_png_loop.simps) (simp add: Let_def)

lemma heuristic_png_loop_no_end:
  assumes "i < 2" "i < length (png_start b)" "i < length (png_end b)"
    and "barmaid_find_seq (stk (2 * i)) fil offset barmaid_start_mseq_png = (s, fil1)" "0 \<le> s"
    and "barmaid_find_seq (stk (2 * i + 1)) fil1 s barmaid_end_mseq_png = (e, fil2)" "e < 0"
  shows "heuristic_png_loop stk i fil offset b =
           (b\<lparr>png_start := (png_start b)[i := s], png_end := (png_end b)[i := e]\<rparr>, fil2)"
  using assms by (subst heuristic_png_loop.simps) (simp add: Let_def)

lemma heuristic_png_loop_step:
  assumes "i < 2" "i < length (png_start b)" "i < length (png_end b)"
    and "barmaid_find_seq (stk (2 * i)) fil offset barmaid_start_mseq_png = (s, fil1)" "0 \<le> s"
    and "barmaid_find_seq (stk (2 * i + 1)) fil1 s barmaid_end_mseq_png = (e, fil2)" "0 \<le> e"
  shows "heuristic_png_loop stk i fil offset b =
           heuristic_png_loop stk (i + 1) fil2 (e + int (length barmaid_end_mseq_png))
             (b\<lparr>png_start := (png_start b)[i := s],
                png_end := (png_end b)[i := e + int (length barmaid_end_mseq_png)]\<rparr>)"
  using assms by (subst heuristic_png_loop.simps) (simp add: Let_def)

text \<open>
  When \<^verbatim>\<open>barmaid_heuristic_png\<close> succeeds on a stream shorter than \<open>2^31\<close> bytes,
  the two image ranges are non-empty and ordered,
  \<open>0 \<le> png_start[0] < png_end[0] \<le> png_start[1] < png_end[1]\<close>, each \<open>png_end\<close> is the
  offset the scanner returned for the end marker plus the marker's 12 bytes, and the
  prefix and container fields keep their initial values. The bound on the length is
  what keeps the scanner's 32-bit product \<^verbatim>\<open>chunk_count * BUFF_SIZ\<close> from wrapping;
  the last section shows what happens without it.
\<close>

lemma heuristic_png_ranges_short:
  assumes run: "barmaid_heuristic_png stk fil = (b, fil')" and ok: "success b"
    and short: "length (bytes fil) < 2 ^ 31"
  shows "0 \<le> png_start b ! 0 \<and> png_start b ! 0 < png_end b ! 0 \<and>
         png_end b ! 0 \<le> png_start b ! 1 \<and> png_start b ! 1 < png_end b ! 1 \<and>
         png_end b ! 0 =
           fst (barmaid_find_seq (stk 1) fil (png_start b ! 0) barmaid_end_mseq_png) + 12 \<and>
         png_end b ! 1 =
           fst (barmaid_find_seq (stk 3) fil (png_start b ! 1) barmaid_end_mseq_png) + 12 \<and>
         prefix_end b = - 1 \<and> container_start b = - 1 \<and> container_end b = - 1 \<and>
         \<not> container_zlib b"
proof -
  let ?S = barmaid_start_mseq_png and ?E = barmaid_end_mseq_png
  have L: "int (length ?E) = 12" by (simp add: mseq_lengths)
  have init: "\<not> success blobs_init" "length (png_start blobs_init) = 2"
    "length (png_end blobs_init) = 2"
    by (simp_all add: blobs_init_def)
  from run have loop0: "heuristic_png_loop stk 0 fil 0 blobs_init = (b, fil')"
    by (simp add: barmaid_heuristic_png_def)
  \<comment> \<open>first image\<close>
  obtain s0 f1 where a0: "barmaid_find_seq (stk (2 * 0)) fil 0 ?S = (s0, f1)"
    by (cases "barmaid_find_seq (stk (2 * 0)) fil 0 ?S")
  have s0: "0 \<le> s0"
  proof (rule ccontr)
    assume "\<not> 0 \<le> s0"
    with heuristic_png_loop_no_start [where stk = stk and i = 0, OF _ _ a0, of blobs_init]
      loop0 init ok show False by auto
  qed
  obtain e0 f2 where c0: "barmaid_find_seq (stk (2 * 0 + 1)) f1 s0 ?E = (e0, f2)"
    by (cases "barmaid_find_seq (stk (2 * 0 + 1)) f1 s0 ?E")
  have e0: "0 \<le> e0"
  proof (rule ccontr)
    assume "\<not> 0 \<le> e0"
    with heuristic_png_loop_no_end [where stk = stk and i = 0, OF _ _ _ a0 s0 c0, of blobs_init]
      loop0 init ok show False by auto
  qed
  define b1 where "b1 = blobs_init\<lparr>png_start := (png_start blobs_init)[0 := s0],
      png_end := (png_end blobs_init)[0 := e0 + int (length ?E)]\<rparr>"
  have loop1: "heuristic_png_loop stk 1 f2 (e0 + int (length ?E)) b1 = (b, fil')"
    using heuristic_png_loop_step [where stk = stk and i = 0, OF _ _ _ a0 s0 c0 e0, of blobs_init]
      loop0 init by (simp add: b1_def)
  have b1: "\<not> success b1" "length (png_start b1) = 2" "length (png_end b1) = 2"
    using init by (simp_all add: b1_def)
  \<comment> \<open>second image\<close>
  obtain s1 f3 where a1: "barmaid_find_seq (stk (2 * 1)) f2 (e0 + int (length ?E)) ?S = (s1, f3)"
    by (cases "barmaid_find_seq (stk (2 * 1)) f2 (e0 + int (length ?E)) ?S")
  have s1: "0 \<le> s1"
  proof (rule ccontr)
    assume "\<not> 0 \<le> s1"
    with heuristic_png_loop_no_start [where stk = stk and i = 1, OF _ _ a1, of b1]
      loop1 b1 ok show False by auto
  qed
  obtain e1 f4 where c1: "barmaid_find_seq (stk (2 * 1 + 1)) f3 s1 ?E = (e1, f4)"
    by (cases "barmaid_find_seq (stk (2 * 1 + 1)) f3 s1 ?E")
  have e1: "0 \<le> e1"
  proof (rule ccontr)
    assume "\<not> 0 \<le> e1"
    with heuristic_png_loop_no_end [where stk = stk and i = 1, OF _ _ _ a1 s1 c1, of b1]
      loop1 b1 ok show False by auto
  qed
  define b2 where "b2 = b1\<lparr>png_start := (png_start b1)[1 := s1],
      png_end := (png_end b1)[1 := e1 + int (length ?E)]\<rparr>"
  have "heuristic_png_loop stk 1 f2 (e0 + int (length ?E)) b1 =
      heuristic_png_loop stk (1 + 1) f4 (e1 + int (length ?E)) b2"
    using heuristic_png_loop_step [where stk = stk and i = 1, OF _ _ _ a1 s1 c1 e1, of b1] b1
    by (simp add: b2_def)
  with loop1 have b: "b = b2\<lparr>success := True\<rparr>"
    by (simp add: heuristic_png_loop_done)
  \<comment> \<open>what the scanner returned\<close>
  note A0 = find_seq_facts [OF a0]
  note C0 = find_seq_facts [OF c0 s0]
  have off1: "0 \<le> e0 + int (length ?E)" using e0 by simp
  note A1 = find_seq_facts [OF a1 off1]
  note C1 = find_seq_facts [OF c1 s1]
  have same1: "bytes f1 = bytes fil" "fileno f1 = fileno fil" using A0 by simp_all
  have same2: "bytes f2 = bytes fil" using A0 C0 by simp
  have same3: "bytes f3 = bytes fil" "fileno f3 = fileno fil" using A0 C0 A1 by simp_all
  have short1: "length (bytes f1) < 2 ^ 31" using short same1 by simp
  have short2: "length (bytes f2) < 2 ^ 31" using short same2 by simp
  have short3: "length (bytes f3) < 2 ^ 31" using short same3 by simp
  have o0: "s0 \<le> e0" using find_seq_ordered [OF c0 s0 short1] e0 by auto
  have o1: "e0 + 12 \<le> s1" using find_seq_ordered [OF a1 off1 short2] s1 L by auto
  have o2: "s1 \<le> e1" using find_seq_ordered [OF c1 s1 short3] e1 by auto
  have i0: "barmaid_find_seq (stk 1) fil s0 ?E = barmaid_find_seq (stk 1) f1 s0 ?E"
    using s0 same1 by (intro find_seq_seek_indep) auto
  have i1: "barmaid_find_seq (stk 3) fil s1 ?E = barmaid_find_seq (stk 3) f3 s1 ?E"
    using s1 same3 by (intro find_seq_seek_indep) auto
  have fields: "png_start b = [s0, s1]" "png_end b = [e0 + 12, e1 + 12]"
    "prefix_end b = - 1" "container_start b = - 1" "container_end b = - 1"
    "\<not> container_zlib b"
    by (simp_all add: b b2_def b1_def blobs_init_def L)
  have r0: "fst (barmaid_find_seq (stk 1) fil s0 ?E) = e0" using i0 c0 by simp
  have r1: "fst (barmaid_find_seq (stk 3) fil s1 ?E) = e1" using i1 c1 by simp
  show ?thesis
    using fields s0 o0 o1 o2 r0 r1 by simp
qed

lemma png_pair_unfold:
  "png_pair = [0x89, 0x50, 0x4E, 0x47, 0x0D, 0x0A, 0x1A, 0x0A,
      0x00, 0x00, 0x00, 0x0D, 0x49, 0x48, 0x44, 0x52,
      0x00, 0x00, 0x00, 0x00, 0x49, 0x45, 0x4E, 0x44, 0xAE, 0x42, 0x60, 0x82,
      0x89, 0x50, 0x4E, 0x47, 0x0D, 0x0A, 0x1A, 0x0A,
      0x00, 0x00, 0x00, 0x0D, 0x49, 0x48, 0x44, 0x52,
      0x00, 0x00, 0x00, 0x00, 0x49, 0x45, 0x4E, 0x44, 0xAE, 0x42, 0x60, 0x82]"
  by (simp add: png_pair_def barmaid_start_mseq_png_def barmaid_end_mseq_png_def)

lemma png_pair_no_end_before:
  "q < 16 \<or> 28 \<le> q \<and> q < 44 \<Longrightarrow> take 12 (drop q png_pair) \<noteq> barmaid_end_mseq_png"
proof -
  have "list_all (\<lambda>q. take 12 (drop q png_pair) \<noteq> barmaid_end_mseq_png)
      ([0 ..< 16] @ [28 ..< 44])"
    unfolding png_pair_unfold barmaid_end_mseq_png_def
    by (simp add: upt_conv_Cons)
  moreover assume "q < 16 \<or> 28 \<le> q \<and> q < 44"
  then have "q \<in> set ([0 ..< 16] @ [28 ..< 44])"
    by (simp only: set_append set_upt Un_iff atLeastLessThan_iff) simp
  ultimately show ?thesis by (simp only: list_all_iff) blast
qed

lemma png_pair_scan:
  fixes fd :: int
  defines "f \<equiv> \<lambda>n. \<lparr>bytes = png_pair, pos = n, fileno = fd\<rparr>"
  shows "barmaid_find_seq buf (f n) 0 barmaid_start_mseq_png = (0, f 0)"
    and "barmaid_find_seq buf (f n) 0 barmaid_end_mseq_png = (16, f 16)"
    and "barmaid_find_seq buf (f n) 28 barmaid_start_mseq_png = (28, f 28)"
    and "barmaid_find_seq buf (f n) 28 barmaid_end_mseq_png = (44, f 44)"
proof -
  have len: "length png_pair = 56" by (simp add: png_pair_unfold)
  have "barmaid_find_seq buf (f n) 0 barmaid_start_mseq_png = (int 0, (f n)\<lparr>pos := 0\<rparr>)"
    by (rule find_seq_first_chunk)
       (simp_all add: f_def png_pair_unfold barmaid_start_mseq_png_def BUFF_SIZ_def)
  then show "barmaid_find_seq buf (f n) 0 barmaid_start_mseq_png = (0, f 0)"
    by (simp add: f_def)
  have "barmaid_find_seq buf (f n) 28 barmaid_start_mseq_png = (int 28, (f n)\<lparr>pos := 28\<rparr>)"
    by (rule find_seq_first_chunk)
       (simp_all add: f_def png_pair_unfold barmaid_start_mseq_png_def BUFF_SIZ_def)
  then show "barmaid_find_seq buf (f n) 28 barmaid_start_mseq_png = (28, f 28)"
    by (simp add: f_def)
  have "barmaid_find_seq buf (f n) 0 barmaid_end_mseq_png = (int 16, (f n)\<lparr>pos := 16\<rparr>)"
  proof (rule find_seq_first_chunk)
    show "take (length barmaid_end_mseq_png) (drop 16 (bytes (f n))) = barmaid_end_mseq_png"
      by (simp add: f_def png_pair_unfold barmaid_end_mseq_png_def)
    show "take (length barmaid_end_mseq_png) (drop q (bytes (f n))) \<noteq> barmaid_end_mseq_png"
      if "nat 0 \<le> q" "q < 16" for q
      using png_pair_no_end_before [of q] that by (simp add: f_def mseq_lengths)
  qed (simp_all add: f_def len mseq_lengths BUFF_SIZ_def barmaid_end_mseq_png_def)
  then show "barmaid_find_seq buf (f n) 0 barmaid_end_mseq_png = (16, f 16)"
    by (simp add: f_def)
  have "barmaid_find_seq buf (f n) 28 barmaid_end_mseq_png = (int 44, (f n)\<lparr>pos := 44\<rparr>)"
  proof (rule find_seq_first_chunk)
    show "take (length barmaid_end_mseq_png) (drop 44 (bytes (f n))) = barmaid_end_mseq_png"
      by (simp add: f_def png_pair_unfold barmaid_end_mseq_png_def)
    show "take (length barmaid_end_mseq_png) (drop q (bytes (f n))) \<noteq> barmaid_end_mseq_png"
      if "nat 28 \<le> q" "q < 44" for q
      using png_pair_no_end_before [of q] that by (simp add: f_def mseq_lengths)
  qed (simp_all add: f_def len mseq_lengths BUFF_SIZ_def barmaid_end_mseq_png_def)
  then show "barmaid_find_seq buf (f n) 28 barmaid_end_mseq_png = (44, f 44)"
    by (simp add: f_def)
qed

lemma png_pair_heuristic:
  "barmaid_heuristic_png stk (fopen_rb png_pair fd) =
     (\<lparr>success = True, prefix_end = - 1, png_start = [0, 28], png_end = [28, 56],
        container_zlib = False, container_start = - 1, container_end = - 1\<rparr>,
      \<lparr>bytes = png_pair, pos = 44, fileno = fd\<rparr>)"
  apply (simp add: barmaid_heuristic_png_def fopen_rb_def)
  apply (subst heuristic_png_loop.simps)
  apply (simp add: png_pair_scan blobs_init_def mseq_lengths Let_def)
  apply (subst heuristic_png_loop.simps)
  apply (simp add: png_pair_scan blobs_init_def mseq_lengths Let_def)
  apply (subst heuristic_png_loop.simps)
  apply simp
  done

lemma png_pair_ranges:
  "length (bytes (fopen_rb png_pair 3)) < 2 ^ 31 \<and>
   barmaid_heuristic_png (\<lambda>_ _. 0) (fopen_rb png_pair 3) =
     (\<lparr>success = True, prefix_end = - 1, png_start = [0, 28], png_end = [28, 56],
        container_zlib = False, container_start = - 1, container_end = - 1\<rparr>,
      \<lparr>bytes = png_pair, pos = 44, fileno = 3\<rparr>) \<and>
   (0::int) \<le> [0, 28] ! 0 \<and> [0, 28] ! 0 < [28, 56::int] ! 0 \<and>
   [28, 56] ! 0 \<le> [0, 28::int] ! 1 \<and> [0, 28] ! 1 < [28, 56::int] ! 1 \<and>
   [28, 56] ! 0 = fst (barmaid_find_seq (\<lambda>_. 0) (fopen_rb png_pair 3) ([0, 28] ! 0)
                     barmaid_end_mseq_png) + 12 \<and>
   [28, 56] ! 1 = fst (barmaid_find_seq (\<lambda>_. 0) (fopen_rb png_pair 3) ([0, 28] ! 1)
                     barmaid_end_mseq_png) + 12"
proof -
  let ?b = "\<lparr>success = True, prefix_end = - 1, png_start = [0, 28], png_end = [28, 56],
        container_zlib = False, container_start = - 1, container_end = - 1\<rparr>"
  have run: "barmaid_heuristic_png (\<lambda>_ _. 0) (fopen_rb png_pair 3) =
     (?b, \<lparr>bytes = png_pair, pos = 44, fileno = 3\<rparr>)"
    by (rule png_pair_heuristic)
  have ok: "success ?b" by simp
  have short: "length (bytes (fopen_rb png_pair 3)) < 2 ^ 31"
    by (simp add: fopen_rb_def png_pair_unfold)
  from heuristic_png_ranges_short [OF run ok short] run short show ?thesis by simp
qed

section \<open>The range extractor\<close>

lemma dump_file_loop_done:
  "sz \<le> i \<Longrightarrow> dump_file_loop buff i sz infile outfile = (True, infile, outfile)"
  by (subst dump_file_loop.simps) simp

lemma dump_file_loop_short:
  assumes "i < sz" "fread (min (sz - i) BUFF_SIZ) infile = (data, in1)"
    and "length data \<noteq> min (sz - i) BUFF_SIZ"
  shows "dump_file_loop buff i sz infile outfile = (False, in1, outfile)"
  using assms by (subst dump_file_loop.simps) (simp add: Let_def)

lemma dump_file_loop_chunk:
  assumes "i < sz" "fread (min (sz - i) BUFF_SIZ) infile = (data, in1)"
    and "length data = min (sz - i) BUFF_SIZ"
  shows "dump_file_loop buff i sz infile outfile =
           dump_file_loop (store buff 0 data) (i + BUFF_SIZ) sz in1 (snd (fwrite data outfile))"
proof -
  have "map (store buff 0 data) [0 ..< min (sz - i) BUFF_SIZ] = data"
    using map_store_0 [of buff data] assms(3) by simp
  with assms show ?thesis
    by (subst dump_file_loop.simps) (simp add: Let_def fwrite_def)
qed

lemma fwrite_bytes:
  assumes "pos outfile \<le> length (bytes outfile)"
  shows "bytes (snd (fwrite data outfile)) =
           take (pos outfile) (bytes outfile) @ data
             @ drop (pos outfile + length data) (bytes outfile)"
    and "pos (snd (fwrite data outfile)) = pos outfile + length data"
  using assms by (simp_all add: fwrite_def)

lemma dump_file_loop_copies:
  assumes "st + sz \<le> length (bytes infile)"
    and "pos infile = st + i" "pos outfile = i" "i \<le> length (bytes outfile)"
  shows "fst (dump_file_loop buff i sz infile outfile) \<and>
         bytes (snd (snd (dump_file_loop buff i sz infile outfile))) =
           take i (bytes outfile) @ take (sz - i) (drop (st + i) (bytes infile))
             @ drop (max i sz) (bytes outfile)"
  using assms
proof (induction "sz - i" arbitrary: i infile outfile buff rule: less_induct)
  case less
  show ?case
  proof (cases "i < sz")
    case False
    then show ?thesis by (simp add: dump_file_loop_done max_def)
  next
    case True
    define chunk where "chunk = min (sz - i) BUFF_SIZ"
    define data where "data = take chunk (drop (st + i) (bytes infile))"
    define in1 where "in1 = infile\<lparr>pos := st + i + length data\<rparr>"
    define out1 where "out1 = snd (fwrite data outfile)"
    have rd: "fread (min (sz - i) BUFF_SIZ) infile = (data, in1)"
      using less.prems(2) by (simp add: fread_def data_def in1_def chunk_def Let_def)
    have len: "length data = chunk"
      using less.prems(1) True unfolding data_def chunk_def by simp
    have step: "dump_file_loop buff i sz infile outfile =
        dump_file_loop (store buff 0 data) (i + BUFF_SIZ) sz in1 out1"
      unfolding out1_def using True rd len by (intro dump_file_loop_chunk) (simp_all add: chunk_def)
    have o1: "bytes out1 = take i (bytes outfile) @ data @ drop (i + chunk) (bytes outfile)"
      "pos out1 = i + chunk"
      using fwrite_bytes [of outfile data] less.prems(3,4) len by (simp_all add: out1_def)
    have cpos: "0 < chunk" using True by (simp add: chunk_def BUFF_SIZ_def)
    show ?thesis
    proof (cases "sz \<le> i + BUFF_SIZ")
      case last: True
      then have c: "chunk = sz - i" by (simp add: chunk_def)
      have "dump_file_loop buff i sz infile outfile = (True, in1, out1)"
        unfolding step using last by (simp add: dump_file_loop_done)
      moreover have "max i sz = sz" "i + chunk = sz" using True c by simp_all
      ultimately show ?thesis using o1 by (simp add: data_def c)
    next
      case more: False
      then have c: "chunk = BUFF_SIZ" by (simp add: chunk_def)
      let ?i = "i + BUFF_SIZ"
      have m: "sz - ?i < sz - i" using True by (simp add: BUFF_SIZ_def)
      have p1: "st + sz \<le> length (bytes in1)" "pos in1 = st + ?i" "pos out1 = ?i"
        "?i \<le> length (bytes out1)"
        using less.prems o1 len c by (simp_all add: in1_def)
      note ih = less.hyps [OF m p1, of "store buff 0 data"]
      have t: "take ?i (bytes out1) = take i (bytes outfile) @ data"
        using o1(1) len c less.prems(4) by simp
      have d: "drop (max ?i sz) (bytes out1) = drop sz (bytes outfile)"
      proof -
        have "max ?i sz = ?i + (sz - ?i)" using more by simp
        then have "drop (max ?i sz) (bytes out1) = drop (sz - ?i) (drop ?i (bytes out1))"
          by (simp add: add.commute)
        also have "drop ?i (bytes out1) = drop ?i (bytes outfile)"
          using o1(1) len c less.prems(4) by simp
        finally show ?thesis using more by simp
      qed
      have s: "data @ take (sz - ?i) (drop (st + ?i) (bytes infile))
          = take (sz - i) (drop (st + i) (bytes infile))"
      proof -
        have "sz - i = BUFF_SIZ + (sz - ?i)" using more by simp
        then show ?thesis
          unfolding data_def c by (simp add: take_add add.assoc del: drop_drop) (simp add: add.commute add.left_commute)
      qed
      have "max i sz = sz" using True by simp
      with ih t d s show ?thesis
        unfolding step by (simp add: in1_def)
    qed
  qed
qed

lemma dump_file_loop_truncated:
  assumes "length (bytes infile) < st + sz"
    and "pos infile = st + i" "pos outfile = i" "i \<le> length (bytes outfile)"
    and "i \<le> length (bytes infile) - st" "BUFF_SIZ dvd i" "0 < sz"
  shows "\<not> fst (dump_file_loop buff i sz infile outfile) \<and>
         bytes (snd (snd (dump_file_loop buff i sz infile outfile))) =
           take i (bytes outfile)
             @ take ((length (bytes infile) - st) div BUFF_SIZ * BUFF_SIZ - i)
                 (drop (st + i) (bytes infile))
             @ drop ((length (bytes infile) - st) div BUFF_SIZ * BUFF_SIZ) (bytes outfile)"
  using assms
proof (induction "length (bytes infile) - st - i" arbitrary: i infile outfile buff
    rule: less_induct)
  case less
  define avail where "avail = length (bytes infile) - st"
  define chunk where "chunk = min (sz - i) BUFF_SIZ"
  define data where "data = take chunk (drop (st + i) (bytes infile))"
  define in1 where "in1 = infile\<lparr>pos := st + i + length data\<rparr>"
  define out1 where "out1 = snd (fwrite data outfile)"
  have isz: "i < sz" using less.prems(1,5,7) by linarith
  have rd: "fread (min (sz - i) BUFF_SIZ) infile = (data, in1)"
    using less.prems(2) by (simp add: fread_def data_def in1_def chunk_def Let_def)
  have ia: "i \<le> avail" using less.prems(5) by (simp add: avail_def)
  have len: "length data = min chunk (avail - i)"
    unfolding data_def avail_def by (simp add: algebra_simps)
  have B: "0 < BUFF_SIZ" by (simp add: BUFF_SIZ_def)
  show ?case
  proof (cases "i + BUFF_SIZ \<le> avail")
    case False
    then have "avail - i < chunk" using less.prems(1) ia isz B unfolding chunk_def avail_def
      by arith
    with len have "length data \<noteq> min (sz - i) BUFF_SIZ" unfolding chunk_def by arith
    from dump_file_loop_short [OF isz rd this]
    have r: "dump_file_loop buff i sz infile outfile = (False, in1, outfile)" .
    obtain k where k: "i = k * BUFF_SIZ" using less.prems(6) unfolding dvd_def by (metis mult.commute)
    have "avail div BUFF_SIZ = k"
    proof -
      have "k * BUFF_SIZ \<le> avail" "avail < (k + 1) * BUFF_SIZ"
        using ia False k by simp_all
      then show ?thesis
        using B by (metis add.commute div_nat_eqI mult.commute plus_1_eq_Suc)
    qed
    then have "avail div BUFF_SIZ * BUFF_SIZ = i" using k by simp
    then show ?thesis unfolding r by (simp add: avail_def [symmetric])
  next
    case True
    then have c: "chunk = BUFF_SIZ" using less.prems(1) unfolding chunk_def avail_def by simp
    with len True have l: "length data = BUFF_SIZ" by simp
    let ?i = "i + BUFF_SIZ"
    have step: "dump_file_loop buff i sz infile outfile =
        dump_file_loop (store buff 0 data) ?i sz in1 out1"
      unfolding out1_def using isz rd l c by (intro dump_file_loop_chunk) (simp_all add: chunk_def)
    have o1: "bytes out1 = take i (bytes outfile) @ data @ drop ?i (bytes outfile)"
      "pos out1 = ?i"
      using fwrite_bytes [of outfile data] less.prems(3,4) l by (simp_all add: out1_def)
    have m: "length (bytes in1) - st - ?i < length (bytes infile) - st - i"
      using True B by (simp add: in1_def avail_def)
    have p1: "length (bytes in1) < st + sz" "pos in1 = st + ?i" "pos out1 = ?i"
      "?i \<le> length (bytes out1)" "?i \<le> length (bytes in1) - st" "BUFF_SIZ dvd ?i"
      "0 < sz"
      using less.prems o1 l True by (simp_all add: in1_def avail_def)
    note ih = less.hyps [OF m p1, of "store buff 0 data"]
    define n where "n = avail div BUFF_SIZ * BUFF_SIZ"
    have n: "?i \<le> n"
    proof -
      obtain k where k: "i = k * BUFF_SIZ" using less.prems(6) unfolding dvd_def by (metis mult.commute)
      have "(k + 1) * BUFF_SIZ \<le> avail" using True k by simp
      then have "k + 1 \<le> avail div BUFF_SIZ" using B by (simp add: less_eq_div_iff_mult_less_eq)
      then have "(k + 1) * BUFF_SIZ \<le> n" unfolding n_def by (rule mult_le_mono1)
      with k show ?thesis by simp
    qed
    have t: "take ?i (bytes out1) = take i (bytes outfile) @ data"
      using o1(1) l less.prems(4) by simp
    have d: "drop n (bytes out1) = drop n (bytes outfile)"
    proof -
      have "n = ?i + (n - ?i)" using n by simp
      then have "drop n (bytes out1) = drop (n - ?i) (drop ?i (bytes out1))"
        by (metis add.commute drop_drop)
      also have "drop ?i (bytes out1) = drop ?i (bytes outfile)"
        using o1(1) l less.prems(4) by simp
      finally show ?thesis using n by simp
    qed
    have s: "data @ take (n - ?i) (drop (st + ?i) (bytes infile))
        = take (n - i) (drop (st + i) (bytes infile))"
    proof -
      have "n - i = BUFF_SIZ + (n - ?i)" using n by simp
      then show ?thesis
        unfolding data_def c
        by (simp add: take_add add.assoc del: drop_drop) (simp add: add.commute add.left_commute)
    qed
    from ih t d s show ?thesis
      unfolding step by (simp add: in1_def avail_def [symmetric] n_def [symmetric])
  qed
qed

text \<open>
  Claim C8: for a range \<open>[start, end)\<close> inside the source, \<^verbatim>\<open>barmaid_dump_file\<close>
  succeeds and the destination holds exactly the source bytes of the range at its
  start (behind them, what it held before; nothing, for a file just opened for
  writing). For a non-empty range that extends past the end of the source it fails,
  and the destination keeps what was written until then: the whole 8 KiB chunks that
  could be read. The destination accepts every write.
\<close>

theorem dump_file_copies_range:
  assumes "0 \<le> start" and "start \<le> end'" and "end' < 2 ^ 63"
  shows "(end' \<le> int (length (bytes infile)) \<longrightarrow>
            fst (barmaid_dump_file buff infile start end' outfile) \<and>
            bytes (snd (snd (barmaid_dump_file buff infile start end' outfile))) =
              take (nat (end' - start)) (drop (nat start) (bytes infile))
                @ drop (nat (end' - start)) (bytes outfile)) \<and>
         (int (length (bytes infile)) < end' \<and> start < end' \<longrightarrow>
            \<not> fst (barmaid_dump_file buff infile start end' outfile) \<and>
            bytes (snd (snd (barmaid_dump_file buff infile start end' outfile))) =
              take ((length (bytes infile) - nat start) div BUFF_SIZ * BUFF_SIZ)
                  (drop (nat start) (bytes infile))
                @ drop ((length (bytes infile) - nat start) div BUFF_SIZ * BUFF_SIZ)
                    (bytes outfile))"
proof -
  define sz where "sz = nat (end' - start)"
  define in1 where "in1 = infile\<lparr>pos := nat start\<rparr>"
  define out1 where "out1 = outfile\<lparr>pos := 0\<rparr>"
  have "(end' - start) mod 2 ^ 64 = end' - start"
    using assms by (intro mod_pos_pos_trivial) auto
  then have run: "barmaid_dump_file buff infile start end' outfile =
      dump_file_loop buff 0 sz in1 out1"
    using assms(1) by (simp add: barmaid_dump_file_def fseek_def sz_def in1_def out1_def)
  have inside: "fst (dump_file_loop buff 0 sz in1 out1) \<and>
      bytes (snd (snd (dump_file_loop buff 0 sz in1 out1))) =
        take sz (drop (nat start) (bytes infile)) @ drop sz (bytes outfile)"
    if "end' \<le> int (length (bytes infile))"
  proof -
    have "nat start + sz \<le> length (bytes in1)"
      using that assms(1,2) by (simp add: sz_def in1_def)
    from dump_file_loop_copies [OF this, of 0 out1 buff]
    show ?thesis by (simp add: in1_def out1_def)
  qed
  have past: "\<not> fst (dump_file_loop buff 0 sz in1 out1) \<and>
      bytes (snd (snd (dump_file_loop buff 0 sz in1 out1))) =
        take ((length (bytes infile) - nat start) div BUFF_SIZ * BUFF_SIZ)
            (drop (nat start) (bytes infile))
          @ drop ((length (bytes infile) - nat start) div BUFF_SIZ * BUFF_SIZ) (bytes outfile)"
    if "int (length (bytes infile)) < end'" "start < end'"
  proof -
    have "length (bytes in1) < nat start + sz" "0 < sz"
      using that assms(1,2) by (simp_all add: sz_def in1_def)
    from dump_file_loop_truncated [OF this(1), of 0 out1 buff] this(2)
    show ?thesis by (simp add: in1_def out1_def)
  qed
  show ?thesis unfolding run using inside past by (simp add: sz_def)
qed

theorem dump_file_copies_range_witness:
  "(0::int) \<le> 10 \<and> (10::int) \<le> 20 \<and> (20::int) \<le> int (length (bytes (fopen_rb src30 3))) \<and>
   fst (barmaid_dump_file (\<lambda>_. 0) (fopen_rb src30 3) 10 20 (fopen_wb 4)) \<and>
   bytes (snd (snd (barmaid_dump_file (\<lambda>_. 0) (fopen_rb src30 3) 10 20 (fopen_wb 4)))) =
     [10, 11, 12, 13, 14, 15, 16, 17, 18, 19] \<and>
   int (length (bytes (fopen_rb src30 3))) < 40 \<and> (10::int) < 40 \<and>
   \<not> fst (barmaid_dump_file (\<lambda>_. 0) (fopen_rb src30 3) 10 40 (fopen_wb 4)) \<and>
   bytes (snd (snd (barmaid_dump_file (\<lambda>_. 0) (fopen_rb src30 3) 10 40 (fopen_wb 4)))) = []"
proof -
  have h: "(0::int) \<le> 10" "(10::int) \<le> 20" "(20::int) < 2 ^ 63"
    "(10::int) \<le> 40" "(40::int) < 2 ^ 63"
    by simp_all
  have v: "(20::int) \<le> int (length (bytes (fopen_rb src30 3)))"
    "int (length (bytes (fopen_rb src30 3))) < 40" "(10::int) < 40"
    by (simp_all add: fopen_rb_def src30_def)
  from dump_file_copies_range [OF h(1,2,3), of "fopen_rb src30 3" "\<lambda>_. 0" "fopen_wb 4"]
    dump_file_copies_range [OF h(1,4,5), of "fopen_rb src30 3" "\<lambda>_. 0" "fopen_wb 4"] v
  show ?thesis by (simp add: fopen_rb_def fopen_wb_def src30_def BUFF_SIZ_def)
qed

section \<open>The sequence scanner behind the first chunk\<close>

lemma memcmp_eq_iff:
  "memcmp_eq buf k seq \<longleftrightarrow> (\<forall>t < length seq. buf (k + t) = seq ! t)"
proof -
  have "map buf [k ..< k + length seq] = seq \<longleftrightarrow>
      (\<forall>t < length seq. map buf [k ..< k + length seq] ! t = seq ! t)"
    by (subst list_eq_iff_nth_eq) simp
  then show ?thesis by (simp add: memcmp_eq_def)
qed

lemma find_seq_loop_chunk:
  assumes "fread BUFF_SIZ fil = (data, fil1)" "data \<noteq> []"
    and "buf2 = (if cc \<noteq> 0
                 then memmove (store buf LONGEST_MAGIC_STRING data) 0 BUFF_SIZ LONGEST_MAGIC_STRING
                 else store buf LONGEST_MAGIC_STRING data)"
    and "i0 = (if cc \<noteq> 0 then - int LONGEST_MAGIC_STRING else 0)"
  shows "find_seq_loop buf cc fil offset seq =
     (case find_seq_scan buf2 seq i0 (int (length data)) of
        Some i \<Rightarrow> (offset + i + sint (cc * of_nat BUFF_SIZ),
                    snd (fseek fil1 (offset + i + sint (cc * of_nat BUFF_SIZ))))
      | None \<Rightarrow> find_seq_loop buf2 (cc + 1) fil1 offset seq)"
  using assms
  by (subst find_seq_loop.simps) (simp add: Let_def split: option.split)

lemma stale_stream_length: "length stale_stream = 8193"
  by (simp add: stale_stream_def)

lemma stale_stream_nth:
  "i < 8193 \<Longrightarrow> stale_stream ! i =
     (if i = 0 then 0x01 else if i = 1 then 0xFE else if i = 2 then 0xFF
      else if i = 8192 then 0xFF else 0x00)"
  by (auto simp: stale_stream_def nth_append nth_Cons' )

lemma stale_stream_absent:
  "take (length barmaid_btw_end_of_meta) (drop q stale_stream) \<noteq> barmaid_btw_end_of_meta"
proof
  assume eq: "take (length barmaid_btw_end_of_meta) (drop q stale_stream)
      = barmaid_btw_end_of_meta"
  then have "length (take 4 (drop q stale_stream)) = 4"
    by (simp add: mseq_lengths)
  then have q: "q + 4 \<le> 8193" by (simp add: stale_stream_length)
  have n: "stale_stream ! (q + t) = barmaid_btw_end_of_meta ! t" if "t < 4" for t
  proof -
    have "take 4 (drop q stale_stream) ! t = stale_stream ! (q + t)"
      using that q by (simp add: stale_stream_length)
    with eq show ?thesis by (simp add: mseq_lengths)
  qed
  from n [of 1] q have "q = 0"
    by (simp add: stale_stream_nth barmaid_btw_end_of_meta_def split: if_splits)
  with n [of 0] show False
    by (simp add: stale_stream_nth barmaid_btw_end_of_meta_def)
qed

text \<open>
  Claim C2 says that the scanner never returns an offset at which the pattern does not
  occur. The comparison at index \<open>i\<close> of a chunk looks at \<open>seq_len\<close> buffer bytes
  whether or not the chunk has that many behind \<open>i\<close>. In \<open>stale_stream\<close> the second
  chunk is the single byte \<open>FF\<close>; behind it the buffer still holds \<open>FE FF 00\<close> of the
  first chunk, and the scanner reports the marker at offset 8192, the last byte of a
  stream in which the marker does not occur. This holds for every prior content of the
  buffer.
\<close>

theorem find_seq_false_offset:
  "(\<forall>q. take (length barmaid_btw_end_of_meta) (drop q stale_stream)
          \<noteq> barmaid_btw_end_of_meta) \<and>
   length stale_stream = 8193 \<and>
   fst (barmaid_find_seq search_buff (fopen_rb stale_stream fd) 0 barmaid_btw_end_of_meta)
     = 8192"
proof -
  let ?seq = barmaid_btw_end_of_meta
  define f0 where "f0 = \<lparr>bytes = stale_stream, pos = 0, fileno = fd\<rparr>"
  define f1 where "f1 = \<lparr>bytes = stale_stream, pos = 8192, fileno = fd\<rparr>"
  define f2 where "f2 = \<lparr>bytes = stale_stream, pos = 8193, fileno = fd\<rparr>"
  define data0 where "data0 = take BUFF_SIZ stale_stream"
  define buf1 where "buf1 = store search_buff LONGEST_MAGIC_STRING data0"
  define buf2 where "buf2 = memmove (store buf1 LONGEST_MAGIC_STRING [0xFF]) 0 BUFF_SIZ
      LONGEST_MAGIC_STRING"
  have len0: "length data0 = 8192"
    by (simp add: data0_def stale_stream_length BUFF_SIZ_def)
  have ne0: "data0 \<noteq> []" using len0 by auto
  have d0: "data0 ! i = stale_stream ! i" if "i < 8192" for i
    using that by (simp add: data0_def BUFF_SIZ_def)
  have b1: "buf1 (32 + i) = stale_stream ! i" if "i < 8192" for i
    using that d0 [OF that] by (simp add: buf1_def store_def len0 LONGEST_MAGIC_STRING_def)
  have rd0: "fread BUFF_SIZ f0 = (data0, f1)"
    by (simp add: fread_def f0_def f1_def data0_def stale_stream_length BUFF_SIZ_def Let_def)
  have rd1: "fread BUFF_SIZ f1 = ([0xFF], f2)"
    by (simp add: fread_def f1_def f2_def stale_stream_def BUFF_SIZ_def Let_def)
  \<comment> \<open>first chunk: no match\<close>
  have scan0: "find_seq_scan buf1 ?seq 0 (int (length data0)) = None"
  proof (rule find_seq_scan_None)
    fix j :: int
    assume j: "0 \<le> j" "j < int (length data0)"
    define k where "k = nat j"
    have k: "k < 8192" "nat (int LONGEST_MAGIC_STRING + j) = 32 + k"
      using j by (simp_all add: k_def len0 LONGEST_MAGIC_STRING_def)
    have "\<exists>t < length ?seq. buf1 (32 + k + t) \<noteq> ?seq ! t"
    proof (cases "k = 2")
      case True
      have "buf1 (32 + (k + 1)) \<noteq> ?seq ! 1"
        unfolding True using b1 [of 3]
        by (simp add: stale_stream_nth barmaid_btw_end_of_meta_def)
      then show ?thesis by (intro exI [of _ 1]) (simp add: mseq_lengths add.assoc)
    next
      case False
      have "buf1 (32 + k) \<noteq> ?seq ! 0"
        using b1 [OF k(1)] k(1) False
        by (simp add: stale_stream_nth barmaid_btw_end_of_meta_def)
      then show ?thesis by (intro exI [of _ 0]) (simp add: mseq_lengths)
    qed
    then show "\<not> memcmp_eq buf1 (nat (int LONGEST_MAGIC_STRING + j)) ?seq"
      unfolding k(2) memcmp_eq_iff by auto
  qed
  have step0: "find_seq_loop search_buff 0 f0 0 ?seq = find_seq_loop buf1 1 f1 0 ?seq"
    using find_seq_loop_chunk [where cc = 0 and buf = search_buff and offset = 0
        and seq = ?seq, OF rd0 ne0 refl refl] len0 scan0
    by (auto simp: buf1_def)
  \<comment> \<open>second chunk: one byte, and the rest of the buffer\<close>
  have v: "buf2 j = 0" if "j < 32" for j
  proof -
    have "buf2 j = buf1 (32 + (8160 + j))"
      using that
      by (simp add: buf2_def memmove_def store_def BUFF_SIZ_def LONGEST_MAGIC_STRING_def)
    also have "\<dots> = 0" using that b1 [of "8160 + j"] by (simp add: stale_stream_nth)
    finally show ?thesis .
  qed
  have w: "buf2 32 = 0xFF" "buf2 33 = 0xFE" "buf2 34 = 0xFF" "buf2 35 = 0x00"
    using b1 [of 1] b1 [of 2] b1 [of 3]
    by (simp_all add: buf2_def memmove_def store_def BUFF_SIZ_def LONGEST_MAGIC_STRING_def
          stale_stream_nth)
  have scan1: "find_seq_scan buf2 ?seq (- int LONGEST_MAGIC_STRING) (int (length [0xFF :: byte]))
      = Some 0"
  proof (rule find_seq_scan_first)
    show "memcmp_eq buf2 (nat (int LONGEST_MAGIC_STRING + 0)) ?seq"
      using w
      by (simp add: memcmp_eq_def barmaid_btw_end_of_meta_def LONGEST_MAGIC_STRING_def)
  next
    fix j :: int
    assume j: "- int LONGEST_MAGIC_STRING \<le> j" "j < 0"
    then have "nat (int LONGEST_MAGIC_STRING + j) < 32"
      by (simp add: LONGEST_MAGIC_STRING_def)
    from v [OF this] have "buf2 (nat (int LONGEST_MAGIC_STRING + j) + 0) \<noteq> ?seq ! 0"
      by (simp add: barmaid_btw_end_of_meta_def)
    then show "\<not> memcmp_eq buf2 (nat (int LONGEST_MAGIC_STRING + j)) ?seq"
      unfolding memcmp_eq_iff by (metis length_greater_0_conv list.discI
          barmaid_btw_end_of_meta_def)
  qed (simp_all add: LONGEST_MAGIC_STRING_def)
  have step1: "find_seq_loop buf1 1 f1 0 ?seq = (8192, snd (fseek f2 8192))"
    using find_seq_loop_chunk [where cc = 1 and buf = buf1 and offset = 0
        and seq = ?seq, OF rd1 _ refl refl] scan1
    by (simp add: buf2_def BUFF_SIZ_def)
  have "barmaid_find_seq search_buff (fopen_rb stale_stream fd) 0 ?seq
      = find_seq_loop search_buff 0 f0 0 ?seq"
    by (simp add: barmaid_find_seq_def fseek_def fopen_rb_def f0_def)
  with step0 step1 have "fst (barmaid_find_seq search_buff (fopen_rb stale_stream fd) 0 ?seq)
      = 8192"
    by (simp add: BUFF_SIZ_def)
  with stale_stream_absent stale_stream_length show ?thesis by blast
qed

lemma straddle_stream_length: "length straddle_stream = 16384"
  by (simp add: straddle_stream_def barmaid_end_mseq_png_def)

lemma straddle_stream_nth:
  "i < 16384 \<Longrightarrow> straddle_stream ! i =
     (if 8190 \<le> i \<and> i < 8202 then barmaid_end_mseq_png ! (i - 8190) else 0xFF)"
  by (auto simp: straddle_stream_def nth_append mseq_lengths)

lemma end_mseq_png_nth:
  "k < 12 \<Longrightarrow> barmaid_end_mseq_png ! k = 0x49 \<longleftrightarrow> k = 4"
proof -
  have "list_all (\<lambda>k. barmaid_end_mseq_png ! k = 0x49 \<longleftrightarrow> k = 4) [0 ..< 12]"
    by (simp add: barmaid_end_mseq_png_def upt_conv_Cons)
  moreover assume "k < 12"
  then have "k \<in> set [0 ..< 12]"
    by (simp only: set_upt atLeastLessThan_iff) simp
  ultimately show ?thesis unfolding list_all_iff by blast
qed

lemma straddle_stream_I:
  "i < 16384 \<Longrightarrow> straddle_stream ! i = 0x49 \<longleftrightarrow> i = 8194"
proof -
  assume i: "i < 16384"
  show ?thesis
  proof (cases "8190 \<le> i \<and> i < 8202")
    case True
    then have "i - 8190 < 12" by arith
    from end_mseq_png_nth [OF this] True i show ?thesis
      by (simp add: straddle_stream_nth) arith
  next
    case False
    with i show ?thesis by (auto simp: straddle_stream_nth)
  qed
qed

lemma straddle_stream_occurs:
  "take (length barmaid_end_mseq_png) (drop 8190 straddle_stream) = barmaid_end_mseq_png"
  by (simp add: straddle_stream_def mseq_lengths)

text \<open>
  Claim C1 says that the scanner returns the offset of the first occurrence, also when
  the occurrence lies across a chunk boundary. The 32 bytes kept for the overlap are
  copied from \<open>search_buff[BUFF_SIZ]\<close> after the next chunk has been read over them,
  so after a full chunk they are the end of the new chunk, not of the old one. In
  \<open>straddle_stream\<close> the image end marker lies at bytes 8190 to 8201 and a second full
  chunk follows: the scanner returns \<open>-1\<close>. The array may hold anything before the
  call; the memory behind it, which the comparisons at the end of the first chunk
  look at, holds zero bytes here.
\<close>

theorem find_seq_misses_straddling:
  "take (length barmaid_end_mseq_png) (drop 8190 straddle_stream) = barmaid_end_mseq_png \<and>
   length straddle_stream = 16384 \<and>
   fst (barmaid_find_seq
          (\<lambda>j. if j < BUFF_SIZ + LONGEST_MAGIC_STRING then search_buff j else 0x00)
          (fopen_rb straddle_stream fd) 0 barmaid_end_mseq_png) = - 1"
proof -
  let ?seq = barmaid_end_mseq_png
  define buf0 :: mem where
    "buf0 = (\<lambda>j. if j < BUFF_SIZ + LONGEST_MAGIC_STRING then search_buff j else 0x00)"
  define f0 where "f0 = \<lparr>bytes = straddle_stream, pos = 0, fileno = fd\<rparr>"
  define f1 where "f1 = \<lparr>bytes = straddle_stream, pos = 8192, fileno = fd\<rparr>"
  define f2 where "f2 = \<lparr>bytes = straddle_stream, pos = 16384, fileno = fd\<rparr>"
  define data0 where "data0 = take BUFF_SIZ straddle_stream"
  define data1 where "data1 = take BUFF_SIZ (drop 8192 straddle_stream)"
  define buf1 where "buf1 = store buf0 LONGEST_MAGIC_STRING data0"
  define buf2 where "buf2 = memmove (store buf1 LONGEST_MAGIC_STRING data1) 0 BUFF_SIZ
      LONGEST_MAGIC_STRING"
  have len: "length data0 = 8192" "length data1 = 8192"
    by (simp_all add: data0_def data1_def straddle_stream_length BUFF_SIZ_def)
  have ne: "data0 \<noteq> []" "data1 \<noteq> []" using len by auto
  have d0: "data0 ! i = straddle_stream ! i" if "i < 8192" for i
    using that by (simp add: data0_def BUFF_SIZ_def)
  have d1: "data1 ! i = straddle_stream ! (8192 + i)" if "i < 8192" for i
    using that by (simp add: data1_def BUFF_SIZ_def straddle_stream_length)
  have rd0: "fread BUFF_SIZ f0 = (data0, f1)"
    by (simp add: fread_def f0_def f1_def data0_def straddle_stream_length BUFF_SIZ_def Let_def)
  have rd1: "fread BUFF_SIZ f1 = (data1, f2)"
    by (simp add: fread_def f1_def f2_def data1_def straddle_stream_length BUFF_SIZ_def Let_def)
  have I: "?seq ! 4 = 0x49" "4 < length ?seq" "?seq ! 0 = 0x00" "0 < length ?seq"
    by (simp_all add: barmaid_end_mseq_png_def)
  \<comment> \<open>first chunk: the byte \<open>49\<close> of the marker is not in reach\<close>
  have b1: "buf1 k \<noteq> 0x49" if "32 \<le> k" for k
  proof (cases "k < 8224")
    case True
    with that have "buf1 k = straddle_stream ! (k - 32)" "k - 32 < 8192"
      using d0 [of "k - 32"] by (simp_all add: buf1_def store_def len LONGEST_MAGIC_STRING_def)
    then show ?thesis using straddle_stream_I [of "k - 32"] by simp
  next
    case False
    then show ?thesis
      by (simp add: buf1_def store_def len buf0_def LONGEST_MAGIC_STRING_def BUFF_SIZ_def)
  qed
  have scan0: "find_seq_scan buf1 ?seq 0 (int (length data0)) = None"
  proof (rule find_seq_scan_None)
    fix j :: int
    assume "0 \<le> j" "j < int (length data0)"
    then have "32 \<le> nat (int LONGEST_MAGIC_STRING + j) + 4"
      by (simp add: LONGEST_MAGIC_STRING_def)
    from b1 [OF this] I(1,2)
    show "\<not> memcmp_eq buf1 (nat (int LONGEST_MAGIC_STRING + j)) ?seq"
      unfolding memcmp_eq_iff by metis
  qed
  have step0: "find_seq_loop buf0 0 f0 0 ?seq = find_seq_loop buf1 1 f1 0 ?seq"
    using find_seq_loop_chunk [where cc = 0 and buf = buf0 and offset = 0
        and seq = ?seq, OF rd0 ne(1) refl refl] scan0
    by (simp add: buf1_def)
  \<comment> \<open>second chunk: the overlap holds the end of this chunk\<close>
  have lo: "buf2 k = 0xFF" if "k < 32" for k
  proof -
    have "buf2 k = data1 ! (8160 + k)"
      using that
      by (simp add: buf2_def memmove_def store_def len BUFF_SIZ_def LONGEST_MAGIC_STRING_def)
    also have "\<dots> = 0xFF"
      using that d1 [of "8160 + k"] by (simp add: straddle_stream_nth)
    finally show ?thesis .
  qed
  have hi: "buf2 k = 0x49 \<longleftrightarrow> k = 34" if "32 \<le> k" for k
  proof (cases "k < 8224")
    case True
    with that have "buf2 k = straddle_stream ! (8192 + (k - 32))" "k - 32 < 8192"
      using d1 [of "k - 32"]
      by (simp_all add: buf2_def memmove_def store_def len LONGEST_MAGIC_STRING_def)
    then show ?thesis
      using straddle_stream_I [of "8192 + (k - 32)"] that by auto
  next
    case False
    then have "buf2 k = 0x00"
      by (simp add: buf2_def memmove_def buf1_def store_def len buf0_def
            LONGEST_MAGIC_STRING_def BUFF_SIZ_def)
    with False show ?thesis by simp
  qed
  have scan1: "find_seq_scan buf2 ?seq (- int LONGEST_MAGIC_STRING) (int (length data1)) = None"
  proof (rule find_seq_scan_None)
    fix j :: int
    assume j: "- int LONGEST_MAGIC_STRING \<le> j" "j < int (length data1)"
    define k where "k = nat (int LONGEST_MAGIC_STRING + j)"
    show "\<not> memcmp_eq buf2 (nat (int LONGEST_MAGIC_STRING + j)) ?seq"
    proof (cases "k = 30")
      case True
      with lo [of 30] I(3,4) have "buf2 (k + 0) \<noteq> ?seq ! 0" by simp
      with I(4) show ?thesis
        unfolding memcmp_eq_iff k_def [symmetric] by metis
    next
      case False
      have "buf2 (k + 4) \<noteq> 0x49"
      proof (cases "k + 4 < 32")
        case True
        with lo [of "k + 4"] show ?thesis by simp
      next
        case ge: False
        then have "32 \<le> k + 4" by simp
        from hi [OF this] False show ?thesis by simp
      qed
      with I(1,2) show ?thesis
        unfolding memcmp_eq_iff k_def [symmetric] by metis
    qed
  qed
  have step1: "find_seq_loop buf1 1 f1 0 ?seq = find_seq_loop buf2 2 f2 0 ?seq"
    using find_seq_loop_chunk [where cc = 1 and buf = buf1 and offset = 0
        and seq = ?seq, OF rd1 ne(2) refl refl] scan1
    by (simp add: buf2_def)
  have step2: "find_seq_loop buf2 2 f2 0 ?seq = (- 1, f2)"
    by (rule find_seq_loop_eof) (simp add: f2_def straddle_stream_length)
  have "barmaid_find_seq buf0 (fopen_rb straddle_stream fd) 0 ?seq
      = find_seq_loop buf0 0 f0 0 ?seq"
    by (simp add: barmaid_find_seq_def fseek_def fopen_rb_def f0_def)
  with step0 step1 step2
  have "fst (barmaid_find_seq buf0 (fopen_rb straddle_stream fd) 0 ?seq) = - 1"
    by simp
  with straddle_stream_occurs straddle_stream_length show ?thesis
    unfolding buf0_def by blast
qed

section \<open>The chunk counter behind 2 GiB\<close>

text \<open>
  What a full chunk looks like in the buffer, a chunk without a match, a run of such
  chunks, and a chunk with its first match at index \<open>i\<close>; all for every value of the
  chunk counter.
\<close>


lemma chunk_buffer:
  assumes len: "length data = BUFF_SIZ"
    and b2: "buf2 = (if cc \<noteq> (0 :: 32 word)
                 then memmove (store buf LONGEST_MAGIC_STRING data) 0 BUFF_SIZ LONGEST_MAGIC_STRING
                 else store buf LONGEST_MAGIC_STRING data)"
  shows "j < BUFF_SIZ \<Longrightarrow> buf2 (LONGEST_MAGIC_STRING + j) = data ! j"
    and "cc \<noteq> 0 \<Longrightarrow> j < LONGEST_MAGIC_STRING \<Longrightarrow>
           buf2 j = data ! (BUFF_SIZ - LONGEST_MAGIC_STRING + j)"
  unfolding b2
  by (simp_all add: memmove_def store_def len BUFF_SIZ_def LONGEST_MAGIC_STRING_def)

lemma find_seq_loop_skip_chunk:
  assumes full: "pos fil + BUFF_SIZ \<le> length (bytes fil)"
    and a: "\<And>j. j < BUFF_SIZ \<Longrightarrow>
              \<exists>t < length seq. j + t < BUFF_SIZ \<and> bytes fil ! (pos fil + (j + t)) \<noteq> seq ! t"
    and b: "\<And>j. BUFF_SIZ - LONGEST_MAGIC_STRING \<le> j \<Longrightarrow> j < BUFF_SIZ \<Longrightarrow>
              bytes fil ! (pos fil + j) \<noteq> seq ! 0"
    and ne: "seq \<noteq> []"
  shows "\<exists>buf'. find_seq_loop buf cc fil offset seq =
           find_seq_loop buf' (cc + 1) (fil\<lparr>pos := pos fil + BUFF_SIZ\<rparr>) offset seq"
proof -
  define data where "data = take BUFF_SIZ (drop (pos fil) (bytes fil))"
  define f1 where "f1 = fil\<lparr>pos := pos fil + BUFF_SIZ\<rparr>"
  define buf2 where "buf2 = (if cc \<noteq> 0
      then memmove (store buf LONGEST_MAGIC_STRING data) 0 BUFF_SIZ LONGEST_MAGIC_STRING
      else store buf LONGEST_MAGIC_STRING data)"
  define i0 where "i0 = (if cc \<noteq> 0 then - int LONGEST_MAGIC_STRING else 0)"
  have len: "length data = BUFF_SIZ" using full by (simp add: data_def)
  have rd: "fread BUFF_SIZ fil = (data, f1)"
    using len by (simp add: fread_def Let_def f1_def data_def [symmetric])
  have nth: "data ! j = bytes fil ! (pos fil + j)" if "j < BUFF_SIZ" for j
    using that full by (simp add: data_def)
  note cb = chunk_buffer [OF len buf2_def]
  have dne: "data \<noteq> []" using len by (auto simp: BUFF_SIZ_def)
  have scan: "find_seq_scan buf2 seq i0 (int (length data)) = None"
  proof (rule find_seq_scan_None)
    fix j :: int
    assume j: "i0 \<le> j" "j < int (length data)"
    show "\<not> memcmp_eq buf2 (nat (int LONGEST_MAGIC_STRING + j)) seq"
    proof (cases "0 \<le> j")
      case True
      define k where "k = nat j"
      have k: "k < BUFF_SIZ" "nat (int LONGEST_MAGIC_STRING + j) = LONGEST_MAGIC_STRING + k"
        using j True by (simp_all add: k_def len)
      from a [OF k(1)] obtain t where t: "t < length seq" "k + t < BUFF_SIZ"
        "bytes fil ! (pos fil + (k + t)) \<noteq> seq ! t" by blast
      have "buf2 (LONGEST_MAGIC_STRING + k + t) \<noteq> seq ! t"
        using cb(1) [OF t(2)] nth [OF t(2)] t(3) by (simp add: add.assoc)
      with t(1) show ?thesis unfolding k(2) memcmp_eq_iff by blast
    next
      case False
      with j(1) have c: "cc \<noteq> 0" by (auto simp: i0_def split: if_splits)
      define k where "k = nat (int LONGEST_MAGIC_STRING + j)"
      have k: "k < LONGEST_MAGIC_STRING" using False j(1) c by (simp add: k_def i0_def)
      have r: "BUFF_SIZ - LONGEST_MAGIC_STRING \<le> BUFF_SIZ - LONGEST_MAGIC_STRING + k"
        "BUFF_SIZ - LONGEST_MAGIC_STRING + k < BUFF_SIZ"
        using k by (simp_all add: BUFF_SIZ_def LONGEST_MAGIC_STRING_def)
      have "buf2 (k + 0) \<noteq> seq ! 0"
        using cb(2) [OF c k] nth [OF r(2)] b [OF r] by simp
      moreover have "0 < length seq" using ne by simp
      ultimately show ?thesis unfolding k_def [symmetric] memcmp_eq_iff by blast
    qed
  qed
  have "find_seq_loop buf cc fil offset seq = find_seq_loop buf2 (cc + 1) f1 offset seq"
    using find_seq_loop_chunk [OF rd dne buf2_def i0_def, of offset seq] scan by simp
  then show ?thesis unfolding f1_def by blast
qed

lemma find_seq_loop_skip_chunks:
  assumes ne: "seq \<noteq> []"
  shows "pos fil + k * BUFF_SIZ \<le> length (bytes fil) \<Longrightarrow>
    (\<And>n. pos fil \<le> n \<Longrightarrow> n < pos fil + k * BUFF_SIZ \<Longrightarrow> bytes fil ! n \<noteq> seq ! 0) \<Longrightarrow>
    \<exists>buf'. find_seq_loop buf cc fil offset seq =
       find_seq_loop buf' (cc + of_nat k) (fil\<lparr>pos := pos fil + k * BUFF_SIZ\<rparr>) offset seq"
proof (induction k arbitrary: buf cc fil)
  case 0
  have "find_seq_loop buf cc fil offset seq =
      find_seq_loop buf (cc + of_nat 0) (fil\<lparr>pos := pos fil + 0 * BUFF_SIZ\<rparr>) offset seq"
    by simp
  then show ?case by blast
next
  case (Suc k)
  define f1 where "f1 = fil\<lparr>pos := pos fil + BUFF_SIZ\<rparr>"
  have L: "0 < length seq" using ne by simp
  have "\<exists>buf'. find_seq_loop buf cc fil offset seq =
           find_seq_loop buf' (cc + 1) (fil\<lparr>pos := pos fil + BUFF_SIZ\<rparr>) offset seq"
  proof (rule find_seq_loop_skip_chunk [OF _ _ _ ne])
    show "pos fil + BUFF_SIZ \<le> length (bytes fil)" using Suc.prems(1) by simp
    show "\<exists>t<length seq. j + t < BUFF_SIZ \<and> bytes fil ! (pos fil + (j + t)) \<noteq> seq ! t"
      if "j < BUFF_SIZ" for j
      using Suc.prems(2) [of "pos fil + j"] that L by (intro exI [of _ 0]) simp
    show "bytes fil ! (pos fil + j) \<noteq> seq ! 0" if "j < BUFF_SIZ" for j
      using Suc.prems(2) [of "pos fil + j"] that by simp
  qed
  then obtain buf1 where s1: "find_seq_loop buf cc fil offset seq =
      find_seq_loop buf1 (cc + 1) f1 offset seq" unfolding f1_def by blast
  have "\<exists>buf'. find_seq_loop buf1 (cc + 1) f1 offset seq =
       find_seq_loop buf' (cc + 1 + of_nat k) (f1\<lparr>pos := pos f1 + k * BUFF_SIZ\<rparr>) offset seq"
  proof (rule Suc.IH)
    show "pos f1 + k * BUFF_SIZ \<le> length (bytes f1)" using Suc.prems(1) by (simp add: f1_def)
    show "bytes f1 ! n \<noteq> seq ! 0" if "pos f1 \<le> n" "n < pos f1 + k * BUFF_SIZ" for n
      using Suc.prems(2) [of n] that by (simp add: f1_def)
  qed
  then obtain buf' where s2: "find_seq_loop buf1 (cc + 1) f1 offset seq =
       find_seq_loop buf' (cc + 1 + of_nat k) (f1\<lparr>pos := pos f1 + k * BUFF_SIZ\<rparr>) offset seq"
    by blast
  have "cc + 1 + of_nat k = cc + of_nat (Suc k)" by simp
  moreover have "f1\<lparr>pos := pos f1 + k * BUFF_SIZ\<rparr> = fil\<lparr>pos := pos fil + Suc k * BUFF_SIZ\<rparr>"
    by (simp add: f1_def)
  ultimately show ?case using s1 s2 by metis
qed

lemma find_seq_loop_hit_chunk:
  assumes full: "pos fil + BUFF_SIZ \<le> length (bytes fil)"
    and ne: "seq \<noteq> []"
    and inside: "i + length seq \<le> BUFF_SIZ"
    and before: "\<And>j. j < i \<Longrightarrow> bytes fil ! (pos fil + j) \<noteq> seq ! 0"
    and tail: "\<And>j. BUFF_SIZ - LONGEST_MAGIC_STRING \<le> j \<Longrightarrow> j < BUFF_SIZ \<Longrightarrow>
              bytes fil ! (pos fil + j) \<noteq> seq ! 0"
    and hit: "\<And>t. t < length seq \<Longrightarrow> bytes fil ! (pos fil + (i + t)) = seq ! t"
  shows "find_seq_loop buf cc fil offset seq =
           (offset + int i + sint (cc * of_nat BUFF_SIZ),
            snd (fseek (fil\<lparr>pos := pos fil + BUFF_SIZ\<rparr>)
                   (offset + int i + sint (cc * of_nat BUFF_SIZ))))"
proof -
  define data where "data = take BUFF_SIZ (drop (pos fil) (bytes fil))"
  define f1 where "f1 = fil\<lparr>pos := pos fil + BUFF_SIZ\<rparr>"
  define buf2 where "buf2 = (if cc \<noteq> 0
      then memmove (store buf LONGEST_MAGIC_STRING data) 0 BUFF_SIZ LONGEST_MAGIC_STRING
      else store buf LONGEST_MAGIC_STRING data)"
  define i0 where "i0 = (if cc \<noteq> 0 then - int LONGEST_MAGIC_STRING else 0)"
  have len: "length data = BUFF_SIZ" using full by (simp add: data_def)
  have rd: "fread BUFF_SIZ fil = (data, f1)"
    using len by (simp add: fread_def Let_def f1_def data_def [symmetric])
  have nth: "data ! j = bytes fil ! (pos fil + j)" if "j < BUFF_SIZ" for j
    using that full by (simp add: data_def)
  note cb = chunk_buffer [OF len buf2_def]
  have dne: "data \<noteq> []" using len by (auto simp: BUFF_SIZ_def)
  have L: "0 < length seq" using ne by simp
  have scan: "find_seq_scan buf2 seq i0 (int (length data)) = Some (int i)"
  proof (rule find_seq_scan_first)
    show "i0 \<le> int i" by (simp add: i0_def)
    show "int i < int (length data)" using inside L len by linarith
    have "buf2 (LONGEST_MAGIC_STRING + i + t) = seq ! t" if "t < length seq" for t
    proof -
      have "i + t < BUFF_SIZ" using that inside by simp
      from cb(1) [OF this] nth [OF this] hit [OF that] show ?thesis by (simp add: add.assoc)
    qed
    then show "memcmp_eq buf2 (nat (int LONGEST_MAGIC_STRING + int i)) seq"
      unfolding memcmp_eq_iff by (simp add: nat_int_add)
  next
    fix j :: int
    assume j: "i0 \<le> j" "j < int i"
    show "\<not> memcmp_eq buf2 (nat (int LONGEST_MAGIC_STRING + j)) seq"
    proof (cases "0 \<le> j")
      case True
      define k where "k = nat j"
      have k: "k < i" "nat (int LONGEST_MAGIC_STRING + j) = LONGEST_MAGIC_STRING + k"
        using j True by (simp_all add: k_def)
      have kb: "k < BUFF_SIZ" using k(1) inside by simp
      have "buf2 (LONGEST_MAGIC_STRING + k + 0) \<noteq> seq ! 0"
        using cb(1) [OF kb] nth [OF kb] before [OF k(1)] by simp
      with L show ?thesis unfolding k(2) memcmp_eq_iff by blast
    next
      case False
      with j(1) have c: "cc \<noteq> 0" by (auto simp: i0_def split: if_splits)
      define k where "k = nat (int LONGEST_MAGIC_STRING + j)"
      have k: "k < LONGEST_MAGIC_STRING" using False j(1) c by (simp add: k_def i0_def)
      have r: "BUFF_SIZ - LONGEST_MAGIC_STRING \<le> BUFF_SIZ - LONGEST_MAGIC_STRING + k"
        "BUFF_SIZ - LONGEST_MAGIC_STRING + k < BUFF_SIZ"
        using k by (simp_all add: BUFF_SIZ_def LONGEST_MAGIC_STRING_def)
      have "buf2 (k + 0) \<noteq> seq ! 0"
        using cb(2) [OF c k] nth [OF r(2)] tail [OF r] by simp
      with L show ?thesis unfolding k_def [symmetric] memcmp_eq_iff by blast
    qed
  qed
  show ?thesis
    using find_seq_loop_chunk [OF rd dne buf2_def i0_def, of offset seq] scan
    by (simp add: f1_def)
qed

lemma far_pair_length: "length far_pair = 4294974500"
  by (simp add: far_pair_def mseq_lengths)

lemma far_pair_nth:
  "n < 4294974500 \<Longrightarrow> far_pair ! n =
     (if n < 16 then barmaid_start_mseq_png ! n
      else if n < 2147482648 then 0xFF
      else if n < 2147482660 then barmaid_end_mseq_png ! (n - 2147482648)
      else if n < 4294967308 then 0xFF
      else if n < 4294967324 then barmaid_start_mseq_png ! (n - 4294967308)
      else 0xFF)"
  by (auto simp: far_pair_def nth_append mseq_lengths)

lemma start_mseq_nonzero:
  "n < 16 \<Longrightarrow> n \<noteq> 8 \<Longrightarrow> n \<noteq> 9 \<Longrightarrow> n \<noteq> 10 \<Longrightarrow> barmaid_start_mseq_png ! n \<noteq> 0"
proof -
  have "list_all (\<lambda>n. n = 8 \<or> n = 9 \<or> n = 10 \<or> barmaid_start_mseq_png ! n \<noteq> 0) [0 ..< 16]"
    unfolding barmaid_start_mseq_png_def by (simp add: upt_conv_Cons)
  moreover assume "n < 16"
  then have "n \<in> set [0 ..< 16]" by (simp only: set_upt atLeastLessThan_iff) simp
  ultimately show "n \<noteq> 8 \<Longrightarrow> n \<noteq> 9 \<Longrightarrow> n \<noteq> 10 \<Longrightarrow> barmaid_start_mseq_png ! n \<noteq> 0"
    by (simp only: list_all_iff) blast
qed

lemma find_seq_loop_far:
  assumes ne: "seq \<noteq> []"
    and full: "pos fil + (k + 1) * BUFF_SIZ \<le> length (bytes fil)"
    and inside: "i + length seq \<le> BUFF_SIZ"
    and before: "\<And>n. pos fil \<le> n \<Longrightarrow> n < pos fil + k * BUFF_SIZ + i \<Longrightarrow>
                   bytes fil ! n \<noteq> seq ! 0"
    and tail: "\<And>j. BUFF_SIZ - LONGEST_MAGIC_STRING \<le> j \<Longrightarrow> j < BUFF_SIZ \<Longrightarrow>
                   bytes fil ! (pos fil + k * BUFF_SIZ + j) \<noteq> seq ! 0"
    and hit: "\<And>t. t < length seq \<Longrightarrow> bytes fil ! (pos fil + k * BUFF_SIZ + (i + t)) = seq ! t"
  shows "find_seq_loop buf cc fil offset seq =
           (offset + int i + sint ((cc + of_nat k) * of_nat BUFF_SIZ),
            snd (fseek (fil\<lparr>pos := pos fil + (k + 1) * BUFF_SIZ\<rparr>)
                   (offset + int i + sint ((cc + of_nat k) * of_nat BUFF_SIZ))))"
proof -
  define f1 where "f1 = fil\<lparr>pos := pos fil + k * BUFF_SIZ\<rparr>"
  have "\<exists>buf'. find_seq_loop buf cc fil offset seq =
       find_seq_loop buf' (cc + of_nat k) (fil\<lparr>pos := pos fil + k * BUFF_SIZ\<rparr>) offset seq"
  proof (rule find_seq_loop_skip_chunks [OF ne])
    show "pos fil + k * BUFF_SIZ \<le> length (bytes fil)" using full by simp
    show "bytes fil ! n \<noteq> seq ! 0" if "pos fil \<le> n" "n < pos fil + k * BUFF_SIZ" for n
      using that by (intro before) simp_all
  qed
  then obtain buf' where skip: "find_seq_loop buf cc fil offset seq =
       find_seq_loop buf' (cc + of_nat k) f1 offset seq"
    unfolding f1_def by blast
  have "find_seq_loop buf' (cc + of_nat k) f1 offset seq =
           (offset + int i + sint ((cc + of_nat k) * of_nat BUFF_SIZ),
            snd (fseek (f1\<lparr>pos := pos f1 + BUFF_SIZ\<rparr>)
                   (offset + int i + sint ((cc + of_nat k) * of_nat BUFF_SIZ))))"
  proof (rule find_seq_loop_hit_chunk [OF _ ne inside])
    show "pos f1 + BUFF_SIZ \<le> length (bytes f1)" using full by (simp add: f1_def)
    show "bytes f1 ! (pos f1 + j) \<noteq> seq ! 0" if "j < i" for j
      using before [of "pos fil + k * BUFF_SIZ + j"] that by (simp add: f1_def)
    show "bytes f1 ! (pos f1 + j) \<noteq> seq ! 0"
      if "BUFF_SIZ - LONGEST_MAGIC_STRING \<le> j" "j < BUFF_SIZ" for j
      using tail [OF that] by (simp add: f1_def)
    show "bytes f1 ! (pos f1 + (i + t)) = seq ! t" if "t < length seq" for t
      using hit [OF that] by (simp add: f1_def)
  qed
  moreover have "f1\<lparr>pos := pos f1 + BUFF_SIZ\<rparr> = fil\<lparr>pos := pos fil + (k + 1) * BUFF_SIZ\<rparr>"
    by (simp add: f1_def)
  ultimately show ?thesis using skip by simp
qed

lemma far_pair_scan:
  fixes fd :: int
  defines "f \<equiv> \<lambda>n. \<lparr>bytes = far_pair, pos = n, fileno = fd\<rparr>"
  shows "barmaid_find_seq buf (f n) 0 barmaid_start_mseq_png = (0, f 0)"
    and "barmaid_find_seq buf (f n) 0 barmaid_end_mseq_png = (2147482648, f 2147482648)"
    and "barmaid_find_seq buf (f n) 2147482660 barmaid_start_mseq_png = (12, f 12)"
    and "barmaid_find_seq buf (f n) 12 barmaid_end_mseq_png = (2147482648, f 2147482648)"
proof -
  let ?S = barmaid_start_mseq_png and ?E = barmaid_end_mseq_png
  have neS: "?S \<noteq> []" and neE: "?E \<noteq> []"
    by (simp_all add: barmaid_start_mseq_png_def barmaid_end_mseq_png_def)
  have S0: "?S ! 0 = 0x89" and E0: "?E ! 0 = 0"
    by (simp_all add: barmaid_start_mseq_png_def barmaid_end_mseq_png_def)
  \<comment> \<open>the first signature, at the head of the stream\<close>
  have "barmaid_find_seq buf (f n) 0 ?S = (int 0, (f n)\<lparr>pos := 0\<rparr>)"
    by (rule find_seq_first_chunk)
       (simp_all add: f_def far_pair_def mseq_lengths neS BUFF_SIZ_def)
  then show "barmaid_find_seq buf (f n) 0 ?S = (0, f 0)"
    by (simp add: f_def)
  \<comment> \<open>the third search starts 988 bytes below \<open>2^31\<close> and finds the second signature
      in chunk 262144\<close>
  have "find_seq_loop buf 0 (f 2147482660) 2147482660 ?S =
      (2147482660 + int 1000 + sint (((0 :: 32 word) + of_nat 262144) * of_nat BUFF_SIZ),
       snd (fseek ((f 2147482660)\<lparr>pos := pos (f 2147482660) + (262144 + 1) * BUFF_SIZ\<rparr>)
              (2147482660 + int 1000 + sint (((0 :: 32 word) + of_nat 262144) * of_nat BUFF_SIZ))))"
  proof (rule find_seq_loop_far [OF neS])
    show "pos (f 2147482660) + (262144 + 1) * BUFF_SIZ \<le> length (bytes (f 2147482660))"
      by (simp add: f_def far_pair_length BUFF_SIZ_def)
    show "1000 + length ?S \<le> BUFF_SIZ" by (simp add: mseq_lengths BUFF_SIZ_def)
    show "bytes (f 2147482660) ! m \<noteq> ?S ! 0"
      if "pos (f 2147482660) \<le> m" "m < pos (f 2147482660) + 262144 * BUFF_SIZ + 1000" for m
      using that by (simp add: f_def BUFF_SIZ_def far_pair_nth S0)
    show "bytes (f 2147482660) ! (pos (f 2147482660) + 262144 * BUFF_SIZ + j) \<noteq> ?S ! 0"
      if "BUFF_SIZ - LONGEST_MAGIC_STRING \<le> j" "j < BUFF_SIZ" for j
      using that by (simp add: f_def BUFF_SIZ_def LONGEST_MAGIC_STRING_def far_pair_nth S0)
    show "bytes (f 2147482660) ! (pos (f 2147482660) + 262144 * BUFF_SIZ + (1000 + t)) = ?S ! t"
      if "t < length ?S" for t
      using that by (simp add: f_def BUFF_SIZ_def far_pair_nth mseq_lengths)
  qed
  then show "barmaid_find_seq buf (f n) 2147482660 ?S = (12, f 12)"
    by (simp add: barmaid_find_seq_def fseek_def f_def BUFF_SIZ_def)
  \<comment> \<open>the end marker, searched from offset 12: chunk 262143, no overflow\<close>
  have "find_seq_loop buf 0 (f 12) 12 ?E =
      (12 + int 7180 + sint (((0 :: 32 word) + of_nat 262143) * of_nat BUFF_SIZ),
       snd (fseek ((f 12)\<lparr>pos := pos (f 12) + (262143 + 1) * BUFF_SIZ\<rparr>)
              (12 + int 7180 + sint (((0 :: 32 word) + of_nat 262143) * of_nat BUFF_SIZ))))"
  proof (rule find_seq_loop_far [OF neE])
    show "pos (f 12) + (262143 + 1) * BUFF_SIZ \<le> length (bytes (f 12))"
      by (simp add: f_def far_pair_length BUFF_SIZ_def)
    show "7180 + length ?E \<le> BUFF_SIZ" by (simp add: mseq_lengths BUFF_SIZ_def)
    show "bytes (f 12) ! m \<noteq> ?E ! 0"
      if "pos (f 12) \<le> m" "m < pos (f 12) + 262143 * BUFF_SIZ + 7180" for m
      using that start_mseq_nonzero [of m]
      by (simp add: f_def BUFF_SIZ_def far_pair_nth E0)
    show "bytes (f 12) ! (pos (f 12) + 262143 * BUFF_SIZ + j) \<noteq> ?E ! 0"
      if "BUFF_SIZ - LONGEST_MAGIC_STRING \<le> j" "j < BUFF_SIZ" for j
      using that by (simp add: f_def BUFF_SIZ_def LONGEST_MAGIC_STRING_def far_pair_nth E0)
    show "bytes (f 12) ! (pos (f 12) + 262143 * BUFF_SIZ + (7180 + t)) = ?E ! t"
      if "t < length ?E" for t
      using that by (simp add: f_def BUFF_SIZ_def far_pair_nth mseq_lengths)
  qed
  then show "barmaid_find_seq buf (f n) 12 ?E = (2147482648, f 2147482648)"
    by (simp add: barmaid_find_seq_def fseek_def f_def BUFF_SIZ_def)
  \<comment> \<open>the end marker, searched from offset 0: the first chunk holds the signature\<close>
  have "\<exists>buf'. find_seq_loop buf 0 (f 0) 0 ?E =
           find_seq_loop buf' (0 + 1) ((f 0)\<lparr>pos := pos (f 0) + BUFF_SIZ\<rparr>) 0 ?E"
  proof (rule find_seq_loop_skip_chunk [OF _ _ _ neE])
    show "pos (f 0) + BUFF_SIZ \<le> length (bytes (f 0))"
      by (simp add: f_def far_pair_length BUFF_SIZ_def)
    show "bytes (f 0) ! (pos (f 0) + j) \<noteq> ?E ! 0"
      if "BUFF_SIZ - LONGEST_MAGIC_STRING \<le> j" "j < BUFF_SIZ" for j
      using that by (simp add: f_def BUFF_SIZ_def LONGEST_MAGIC_STRING_def far_pair_nth E0)
    show "\<exists>t<length ?E. j + t < BUFF_SIZ \<and> bytes (f 0) ! (pos (f 0) + (j + t)) \<noteq> ?E ! t"
      if j: "j < BUFF_SIZ" for j
    proof -
      have eleven: "far_pair ! 11 = 0x0D"
        by (simp add: far_pair_nth barmaid_start_mseq_png_def)
      have Et: "?E ! 1 = 0" "?E ! 2 = 0" "?E ! 3 = 0"
        by (simp_all add: barmaid_end_mseq_png_def)
      consider "j = 8" | "j = 9" | "j = 10" | "j \<noteq> 8" "j \<noteq> 9" "j \<noteq> 10" by blast
      then show ?thesis
      proof cases
        case 1
        then show ?thesis using eleven Et
          by (intro exI [of _ 3]) (simp add: f_def mseq_lengths BUFF_SIZ_def)
      next
        case 2
        then show ?thesis using eleven Et
          by (intro exI [of _ 2]) (simp add: f_def mseq_lengths BUFF_SIZ_def)
      next
        case 3
        then show ?thesis using eleven Et
          by (intro exI [of _ 1]) (simp add: f_def mseq_lengths BUFF_SIZ_def)
      next
        case 4
        have "far_pair ! j \<noteq> 0"
          using j 4 start_mseq_nonzero [of j] by (simp add: far_pair_nth BUFF_SIZ_def)
        then show ?thesis using j
          by (intro exI [of _ 0]) (simp add: f_def mseq_lengths E0)
      qed
    qed
  qed
  then obtain buf1 where first: "find_seq_loop buf 0 (f 0) 0 ?E =
      find_seq_loop buf1 1 (f 8192) 0 ?E"
    by (auto simp: f_def BUFF_SIZ_def)
  have "find_seq_loop buf1 1 (f 8192) 0 ?E =
      (0 + int 7192 + sint (((1 :: 32 word) + of_nat 262142) * of_nat BUFF_SIZ),
       snd (fseek ((f 8192)\<lparr>pos := pos (f 8192) + (262142 + 1) * BUFF_SIZ\<rparr>)
              (0 + int 7192 + sint (((1 :: 32 word) + of_nat 262142) * of_nat BUFF_SIZ))))"
  proof (rule find_seq_loop_far [OF neE])
    show "pos (f 8192) + (262142 + 1) * BUFF_SIZ \<le> length (bytes (f 8192))"
      by (simp add: f_def far_pair_length BUFF_SIZ_def)
    show "7192 + length ?E \<le> BUFF_SIZ" by (simp add: mseq_lengths BUFF_SIZ_def)
    show "bytes (f 8192) ! m \<noteq> ?E ! 0"
      if "pos (f 8192) \<le> m" "m < pos (f 8192) + 262142 * BUFF_SIZ + 7192" for m
      using that by (simp add: f_def BUFF_SIZ_def far_pair_nth E0)
    show "bytes (f 8192) ! (pos (f 8192) + 262142 * BUFF_SIZ + j) \<noteq> ?E ! 0"
      if "BUFF_SIZ - LONGEST_MAGIC_STRING \<le> j" "j < BUFF_SIZ" for j
      using that by (simp add: f_def BUFF_SIZ_def LONGEST_MAGIC_STRING_def far_pair_nth E0)
    show "bytes (f 8192) ! (pos (f 8192) + 262142 * BUFF_SIZ + (7192 + t)) = ?E ! t"
      if "t < length ?E" for t
      using that by (simp add: f_def BUFF_SIZ_def far_pair_nth mseq_lengths)
  qed
  with first show "barmaid_find_seq buf (f n) 0 ?E = (2147482648, f 2147482648)"
    by (simp add: barmaid_find_seq_def fseek_def f_def BUFF_SIZ_def)
qed

text \<open>
  Claim C10 says that on every stream on which \<^verbatim>\<open>barmaid_heuristic_png\<close> succeeds the
  two ranges are ordered, \<open>0 \<le> png_start[0] < png_end[0] \<le> png_start[1] < png_end[1]\<close>.
  On \<open>far_pair\<close> the first image ends at \<open>png_end[0] = 2147482660\<close>. The search for
  the second signature starts there and meets it in chunk 262144, at index 1000; the
  32-bit product \<^verbatim>\<open>chunk_count * BUFF_SIZ\<close> has wrapped to \<open>- 2^31\<close>, and the scanner
  reports offset 12 instead of \<open>2^32 + 12\<close>. The end marker is then searched from
  offset 12 and found at \<open>2^31 - 1000\<close> again: the function succeeds with
  \<open>png_start[1] = 12\<close>, below \<open>png_end[0]\<close>, and with both ranges ending at the same
  offset. This holds for every prior content of the scanner's buffers.
\<close>

theorem heuristic_png_ranges_overflow:
  "length far_pair = 4294974500 \<and>
   barmaid_heuristic_png stk (fopen_rb far_pair fd) =
     (\<lparr>success = True, prefix_end = - 1, png_start = [0, 12],
        png_end = [2147482660, 2147482660],
        container_zlib = False, container_start = - 1, container_end = - 1\<rparr>,
      \<lparr>bytes = far_pair, pos = 2147482648, fileno = fd\<rparr>)"
  apply (simp add: barmaid_heuristic_png_def fopen_rb_def far_pair_length)
  apply (subst heuristic_png_loop.simps)
  apply (simp add: far_pair_scan blobs_init_def mseq_lengths Let_def)
  apply (subst heuristic_png_loop.simps)
  apply (simp add: far_pair_scan blobs_init_def mseq_lengths Let_def)
  apply (subst heuristic_png_loop.simps)
  apply simp
  done

end
